theory Spec2Isabelle
  imports Main
begin

section \<open>Machine integers and failures\<close>

text \<open>
  The program is C++ (\<^verbatim>\<open>src/beal.cc\<close>). Its \<^verbatim>\<open>int\<close> is the 32-bit signed integer, its
  \<^verbatim>\<open>unsigned int\<close> and \<^verbatim>\<open>uint32_t\<close> the 32-bit unsigned one, \<^verbatim>\<open>uint64_t\<close> the 64-bit
  unsigned one. Signed values are modelled as \<open>int\<close>, unsigned ones as \<open>nat\<close>; every
  conversion and every unsigned wrap-around of the source is written out with the
  functions below. Two things stop the program and are values of the model:
  a failed \<^verbatim>\<open>assert\<close> (the assertions are compiled in: \<^verbatim>\<open>NDEBUG\<close> is not defined in the
  source), and undefined behaviour (signed overflow of \<^verbatim>\<open>++\<close>, a vector access out of
  range, \<^verbatim>\<open>%\<close> by zero).
\<close>

datatype error = AssertionFailed | UndefinedBehaviour

definition INT_MAX :: int where
  "INT_MAX = 2147483647"

definition UINT_MAX :: nat where
  "UINT_MAX = 4294967295"

definition to_unsigned :: "int \<Rightarrow> nat" where
  \<comment> \<open>conversion of an \<^verbatim>\<open>int\<close> to \<^verbatim>\<open>unsigned int\<close>\<close>
  "to_unsigned i = nat (i mod 4294967296)"

definition u32 :: "nat \<Rightarrow> nat" where
  \<comment> \<open>conversion to \<^verbatim>\<open>uint32_t\<close>\<close>
  "u32 n = n mod 4294967296"

definition u64 :: "nat \<Rightarrow> nat" where
  \<comment> \<open>conversion to \<^verbatim>\<open>uint64_t\<close>, and the wrap-around of 64-bit arithmetic\<close>
  "u64 n = n mod 18446744073709551616"

section \<open>Numeric primitives\<close>

text \<open>
  Modelled from the spec: \<^verbatim>\<open>modpow\<close> is declared in the header \<^verbatim>\<open>math.h\<close> of the
  repository, which is not among the sources. The spec's contract:
  \<^verbatim>\<open>modpow(base, exponent, modulus)\<close> computes base to the power exponent, modulo
  modulus, exactly, for a modulus up to \<open>2^32 - 1\<close>.
\<close>

definition modpow :: "nat \<Rightarrow> nat \<Rightarrow> nat \<Rightarrow> nat" where
  "modpow base exponent modulus = base ^ exponent mod modulus"

text \<open>
  Modelled from the spec: \<^verbatim>\<open>gcd\<close> comes from the same missing header. The spec's
  contract: \<^verbatim>\<open>gcd(u, v)\<close> is the greatest common divisor of two unsigned values, with
  \<^verbatim>\<open>gcd(0, v) = v\<close>.
\<close>

definition gcd_u :: "nat \<Rightarrow> nat \<Rightarrow> nat" where
  "gcd_u u v = gcd u v"

section \<open>Class \<^verbatim>\<open>cz\<close>: the residue table of one modulus\<close>

text \<open>
  \<^verbatim>\<open>vals_\<close> is a vector of vectors of \<^verbatim>\<open>uint32_t\<close>; \<^verbatim>\<open>exists_\<close> is a \<^verbatim>\<open>vector<bool>\<close> of
  \<open>2^32\<close> entries indexed by a \<^verbatim>\<open>uint32_t\<close>, so every index is in range: it is a
  total function from the index to the flag.
\<close>

record cz =
  cz_vals :: "nat list list"
  cz_exists :: "nat \<Rightarrow> bool"
  cz_mod :: nat

definition resize :: "'a list \<Rightarrow> nat \<Rightarrow> 'a \<Rightarrow> 'a list" where
  \<comment> \<open>\<^verbatim>\<open>std::vector::resize\<close>: new elements are value-initialised\<close>
  "resize xs n d = take n xs @ replicate (n - length xs) d"

text \<open>
  The inner loop of the constructor, lines 20 to 24:
  \<^verbatim>\<open>for (z = 3; z <= maxp; z++) { val = modpow(c, z, mod); vals_[c][z] = val; exists_[val] = true; }\<close>
\<close>

function cz_loop_z ::
  "nat \<Rightarrow> nat \<Rightarrow> nat \<Rightarrow> nat \<Rightarrow> nat list list \<times> (nat \<Rightarrow> bool) \<Rightarrow> nat list list \<times> (nat \<Rightarrow> bool)"
where
  "cz_loop_z c z maxp m (vs, ex) =
     (if z \<le> maxp then
        (let val = modpow c z m
         in cz_loop_z c (z + 1) maxp m (vs[c := (vs ! c)[z := val]], ex(val := True)))
      else (vs, ex))"
  by pat_completeness auto
termination
  by (relation "measure (\<lambda>(c, z, maxp, m, s). maxp + 1 - z)") auto

declare cz_loop_z.simps [simp del]

text \<open>
  The outer loop, lines 18 to 25:
  \<^verbatim>\<open>for (c = 1; c <= maxb; c++) { vals_[c].resize(maxp+1); ... }\<close>
\<close>

function cz_loop_c ::
  "nat \<Rightarrow> nat \<Rightarrow> nat \<Rightarrow> nat \<Rightarrow> nat list list \<times> (nat \<Rightarrow> bool) \<Rightarrow> nat list list \<times> (nat \<Rightarrow> bool)"
where
  "cz_loop_c c maxb maxp m (vs, ex) =
     (if c \<le> maxb then
        cz_loop_c (c + 1) maxb maxp m
          (cz_loop_z c 3 maxp m (vs[c := resize (vs ! c) (maxp + 1) 0], ex))
      else (vs, ex))"
  by pat_completeness auto
termination
  by (relation "measure (\<lambda>(c, maxb, maxp, m, s). maxb + 1 - c)") auto

declare cz_loop_c.simps [simp del]

text \<open>
  The constructor. The three assertions come first. \<^verbatim>\<open>maxb+1\<close> and \<^verbatim>\<open>maxp+1\<close> are
  computed in \<^verbatim>\<open>unsigned int\<close>: when \<^verbatim>\<open>maxb\<close> is \<open>UINT_MAX\<close> the vector \<^verbatim>\<open>vals_\<close> gets
  size 0 and the first \<^verbatim>\<open>vals_[1]\<close> is out of range; when \<^verbatim>\<open>maxp\<close> is \<open>UINT_MAX\<close> the
  row gets size 0 and the first \<^verbatim>\<open>vals_[c][3]\<close> is out of range. Below these two
  values nothing wraps and every access of the loops is in range.
\<close>

definition cz :: "nat \<Rightarrow> nat \<Rightarrow> nat \<Rightarrow> error + cz" where
  "cz maxb maxp m =
     (if \<not> maxb > 0 then Inl AssertionFailed
      else if \<not> maxp > 2 then Inl AssertionFailed
      else if \<not> m > 0 then Inl AssertionFailed
      else if maxb \<ge> UINT_MAX \<or> maxp \<ge> UINT_MAX then Inl UndefinedBehaviour
      else
        (let (vs, ex) = cz_loop_c 1 maxb maxp m (replicate (maxb + 1) [], (\<lambda>v. False))
         in Inr \<lparr>cz_vals = vs, cz_exists = ex, cz_mod = m\<rparr>))"

text \<open>
  \<^verbatim>\<open>get\<close>, lines 29 to 33: two assertions, then \<^verbatim>\<open>vals_[c][z]\<close>, which is undefined
  behaviour out of range.
\<close>

definition get :: "cz \<Rightarrow> int \<Rightarrow> int \<Rightarrow> error + nat" where
  "get t c z =
     (if \<not> c > 0 then Inl AssertionFailed
      else if \<not> z > 2 then Inl AssertionFailed
      else if nat c < length (cz_vals t) \<and> nat z < length (cz_vals t ! nat c)
        then Inr (cz_vals t ! nat c ! nat z)
      else Inl UndefinedBehaviour)"

definition exists :: "cz \<Rightarrow> nat \<Rightarrow> bool" where
  "exists t val = cz_exists t val"

section \<open>Class \<^verbatim>\<open>axby\<close>: the points of one slice\<close>

record point =
  pt_a :: int
  pt_x :: int
  pt_b :: int
  pt_y :: int

record axby =
  axby_maxb :: int
  axby_maxp :: int
  axby_p :: point
  axby_a_dim :: int

text \<open>
  The constructor, lines 69 to 79. The cursor is \<open>(a, 3, 1, 3)\<close>, so of the six assertions
  only the first three can fail; then \<^verbatim>\<open>p_.y--\<close>.
\<close>

definition axby :: "int \<Rightarrow> int \<Rightarrow> int \<Rightarrow> error + axby" where
  "axby maxb maxp a =
     (if \<not> maxb > 0 then Inl AssertionFailed
      else if \<not> maxp > 2 then Inl AssertionFailed
      else if \<not> a > 0 then Inl AssertionFailed
      else Inr \<lparr>axby_maxb = maxb, axby_maxp = maxp,
                axby_p = \<lparr>pt_a = a, pt_x = 3, pt_b = 1, pt_y = 3 - 1\<rparr>,
                axby_a_dim = a\<rparr>)"

text \<open>
  The \<^verbatim>\<open>for (;;)\<close> loop of \<^verbatim>\<open>next\<close>, lines 88 to 112, on the cursor. It returns the cursor
  and the value written to \<^verbatim>\<open>*done\<close>. \<^verbatim>\<open>gcd\<close> takes unsigned arguments. An increment
  of a cursor field that holds \<open>INT_MAX\<close> is a signed overflow.
\<close>

function next_b :: "point \<Rightarrow> error + point \<times> bool" where
  "next_b p =
     (if pt_b p > pt_a p then
        (if pt_a p = INT_MAX then Inl UndefinedBehaviour
         else Inr (p\<lparr>pt_a := pt_a p + 1\<rparr>, True))
      else if gcd_u (to_unsigned (pt_a p)) (to_unsigned (pt_b p)) > 1 then
        (if pt_b p = INT_MAX then Inl UndefinedBehaviour
         else next_b (p\<lparr>pt_b := pt_b p + 1\<rparr>))
      else Inr (p, False))"
  by pat_completeness auto
termination
  by (relation "measure (\<lambda>p. nat (pt_a p + 1 - pt_b p))") auto

declare next_b.simps [simp del]

text \<open>\<^verbatim>\<open>next\<close>, lines 81 to 118: the new state and the value written to \<^verbatim>\<open>*done\<close>.\<close>

definition axby_next :: "axby \<Rightarrow> error + axby \<times> bool" where
  "axby_next s =
     (let p = axby_p s in
      if \<not> pt_a p = axby_a_dim s then Inl AssertionFailed
      else if pt_y p = INT_MAX then Inl UndefinedBehaviour
      else
        (let p = p\<lparr>pt_y := pt_y p + 1\<rparr> in
         if pt_y p > axby_maxp s then
           (let p = p\<lparr>pt_y := 3\<rparr> in
            if pt_x p = INT_MAX then Inl UndefinedBehaviour
            else
              (let p = p\<lparr>pt_x := pt_x p + 1\<rparr> in
               if pt_x p > axby_maxp s then
                 (let p = p\<lparr>pt_x := 3\<rparr> in
                  if pt_b p = INT_MAX then Inl UndefinedBehaviour
                  else
                    (case next_b (p\<lparr>pt_b := pt_b p + 1\<rparr>) of
                       Inl e \<Rightarrow> Inl e
                     | Inr (p', done) \<Rightarrow> Inr (s\<lparr>axby_p := p'\<rparr>, done)))
               else Inr (s\<lparr>axby_p := p\<rparr>, False)))
         else Inr (s\<lparr>axby_p := p\<rparr>, False)))"

text \<open>
  The protocol of the class comment (lines 56 and 57) and of every caller: call \<^verbatim>\<open>next\<close>
  until it reports done, and discard the point returned with done. \<open>axby_run\<close> is the
  list of the points returned before done, in the order of the calls, or the failure
  that stopped the calls.
\<close>

function axby_run :: "axby \<Rightarrow> error + point list" where
  "axby_run s =
     (case axby_next s of
        Inl e \<Rightarrow> Inl e
      | Inr (s', done) \<Rightarrow>
          if done then Inr []
          else (case axby_run s' of Inl e \<Rightarrow> Inl e | Inr ps \<Rightarrow> Inr (axby_p s' # ps)))"
  by pat_completeness auto
termination
proof (relation "measures [\<lambda>s. nat (pt_a (axby_p s) + 1 - pt_b (axby_p s)),
                           \<lambda>s. nat (axby_maxp s + 1 - pt_x (axby_p s)),
                           \<lambda>s. nat (axby_maxp s + 1 - pt_y (axby_p s))]")
  show "wf (measures [\<lambda>s. nat (pt_a (axby_p s) + 1 - pt_b (axby_p s)),
                      \<lambda>s. nat (axby_maxp s + 1 - pt_x (axby_p s)),
                      \<lambda>s. nat (axby_maxp s + 1 - pt_y (axby_p s))])"
    by simp
next
  fix s :: axby and r :: "axby \<times> bool" and s' :: axby and d :: bool
  assume nx: "axby_next s = Inr r" and r: "(s', d) = r" and nd: "\<not> d"
  have nb: "next_b p = Inr (p', False) \<Longrightarrow>
      pt_a p' = pt_a p \<and> pt_b p \<le> pt_b p' \<and> pt_b p' \<le> pt_a p" for p p'
  proof (induction p rule: next_b.induct)
    case (1 p)
    then show ?case
      by (subst (asm) (2) next_b.simps) (auto split: if_splits)
  qed
  show "(s', s) \<in> measures [\<lambda>s. nat (pt_a (axby_p s) + 1 - pt_b (axby_p s)),
                            \<lambda>s. nat (axby_maxp s + 1 - pt_x (axby_p s)),
                            \<lambda>s. nat (axby_maxp s + 1 - pt_y (axby_p s))]"
    using nx r [symmetric] nd
    by (auto simp: axby_next_def Let_def split: if_splits sum.splits prod.splits dest!: nb)
qed

declare axby_run.simps [simp del]

definition axby_points :: "int \<Rightarrow> int \<Rightarrow> int \<Rightarrow> error + point list" where
  \<comment> \<open>construct an enumerator and run it to the end\<close>
  "axby_points maxb maxp a =
     (case axby maxb maxp a of Inl e \<Rightarrow> Inl e | Inr s \<Rightarrow> axby_run s)"

text \<open>
  The points a caller has received when the calls of \<^verbatim>\<open>next\<close> end, whether they end with
  done or with a failure: every point returned with done false, in the order of the
  calls.
\<close>

function axby_yields :: "axby \<Rightarrow> point list" where
  "axby_yields s =
     (case axby_next s of
        Inl e \<Rightarrow> []
      | Inr (s', done) \<Rightarrow> if done then [] else axby_p s' # axby_yields s')"
  by pat_completeness auto
termination
proof (relation "measures [\<lambda>s. nat (pt_a (axby_p s) + 1 - pt_b (axby_p s)),
                           \<lambda>s. nat (axby_maxp s + 1 - pt_x (axby_p s)),
                           \<lambda>s. nat (axby_maxp s + 1 - pt_y (axby_p s))]")
  show "wf (measures [\<lambda>s. nat (pt_a (axby_p s) + 1 - pt_b (axby_p s)),
                      \<lambda>s. nat (axby_maxp s + 1 - pt_x (axby_p s)),
                      \<lambda>s. nat (axby_maxp s + 1 - pt_y (axby_p s))])"
    by simp
next
  fix s :: axby and r :: "axby \<times> bool" and s' :: axby and d :: bool
  assume nx: "axby_next s = Inr r" and r: "(s', d) = r" and nd: "\<not> d"
  have nb: "next_b p = Inr (p', False) \<Longrightarrow>
      pt_a p' = pt_a p \<and> pt_b p \<le> pt_b p' \<and> pt_b p' \<le> pt_a p" for p p'
  proof (induction p rule: next_b.induct)
    case (1 p)
    then show ?case
      by (subst (asm) (2) next_b.simps) (auto split: if_splits)
  qed
  show "(s', s) \<in> measures [\<lambda>s. nat (pt_a (axby_p s) + 1 - pt_b (axby_p s)),
                            \<lambda>s. nat (axby_maxp s + 1 - pt_x (axby_p s)),
                            \<lambda>s. nat (axby_maxp s + 1 - pt_y (axby_p s))]"
    using nx r [symmetric] nd
    by (auto simp: axby_next_def Let_def split: if_splits sum.splits prod.splits dest!: nb)
qed

declare axby_yields.simps [simp del]

definition axby_yielded :: "int \<Rightarrow> int \<Rightarrow> int \<Rightarrow> point list" where
  \<comment> \<open>construct an enumerator and call \<^verbatim>\<open>next\<close> until done or a failure\<close>
  "axby_yielded maxb maxp a =
     (case axby maxb maxp a of Inl e \<Rightarrow> [] | Inr s \<Rightarrow> axby_yields s)"

section \<open>Class \<^verbatim>\<open>work\<close>: the search over several moduli\<close>

record work =
  work_maxb :: int
  work_maxp :: int
  work_czs :: "cz list"

text \<open>
  The constructor, lines 129 to 134: one table for each of the \<^verbatim>\<open>nprimes\<close> moduli, in
  their order. The bounds are \<^verbatim>\<open>int\<close> here and \<^verbatim>\<open>unsigned int\<close> in the constructor of
  \<^verbatim>\<open>cz\<close>.
\<close>

fun make_czs :: "int \<Rightarrow> int \<Rightarrow> nat list \<Rightarrow> error + cz list" where
  "make_czs maxb maxp [] = Inr []"
| "make_czs maxb maxp (m # ms) =
     (case cz (to_unsigned maxb) (to_unsigned maxp) m of
        Inl e \<Rightarrow> Inl e
      | Inr t \<Rightarrow>
          (case make_czs maxb maxp ms of Inl e \<Rightarrow> Inl e | Inr ts \<Rightarrow> Inr (t # ts)))"

definition work :: "int \<Rightarrow> int \<Rightarrow> nat list \<Rightarrow> error + work" where
  "work maxb maxp primes =
     (case make_czs maxb maxp primes of
        Inl e \<Rightarrow> Inl e
      | Inr ts \<Rightarrow> Inr \<lparr>work_maxb = maxb, work_maxp = maxp, work_czs = ts\<rparr>)"

text \<open>
  Lines 150 to 153: the value handed to \<^verbatim>\<open>exists\<close> for one table and one point. The two
  residues are widened to \<^verbatim>\<open>uint64_t\<close>, added and reduced in \<^verbatim>\<open>uint64_t\<close>, and the result
  is converted to the \<^verbatim>\<open>uint32_t\<close> parameter of \<^verbatim>\<open>exists\<close>.
\<close>

definition sieve_arg :: "cz \<Rightarrow> point \<Rightarrow> error + nat" where
  "sieve_arg czp pt =
     (case get czp (pt_a pt) (pt_x pt) of
        Inl e \<Rightarrow> Inl e
      | Inr gax \<Rightarrow>
          (case get czp (pt_b pt) (pt_y pt) of
             Inl e \<Rightarrow> Inl e
           | Inr gby \<Rightarrow>
               (let ax = u64 gax; bY = u64 gby in
                if u64 (cz_mod czp) = 0 then Inl UndefinedBehaviour
                else Inr (u32 (u64 (ax + bY) mod u64 (cz_mod czp))))))"

text \<open>
  The \<^verbatim>\<open>for\<close> loop over the tables, lines 147 to 157: the value of \<^verbatim>\<open>found\<close> after it. The
  first table whose check fails ends the loop.
\<close>

fun found_all :: "cz list \<Rightarrow> point \<Rightarrow> error + bool" where
  "found_all [] pt = Inr True"
| "found_all (czp # rest) pt =
     (case sieve_arg czp pt of
        Inl e \<Rightarrow> Inl e
      | Inr val \<Rightarrow> if \<not> exists czp val then Inr False else found_all rest pt)"

text \<open>
  The \<^verbatim>\<open>while (!done)\<close> loop of \<^verbatim>\<open>do_work\<close>, lines 146 to 163, entered with the state of
  the enumerator after a call of \<^verbatim>\<open>next\<close> that was not done; \<^verbatim>\<open>pt\<close> is a reference to the
  cursor.
\<close>

function work_loop :: "cz list \<Rightarrow> axby \<Rightarrow> point list \<Rightarrow> error + point list" where
  "work_loop czs pts results =
     (case found_all czs (axby_p pts) of
        Inl e \<Rightarrow> Inl e
      | Inr found \<Rightarrow>
          (let results = (if found then results @ [axby_p pts] else results) in
           case axby_next pts of
             Inl e \<Rightarrow> Inl e
           | Inr (pts', done) \<Rightarrow> if done then Inr results else work_loop czs pts' results))"
  by pat_completeness auto
termination
proof (relation "measures [\<lambda>(czs, s, rs). nat (pt_a (axby_p s) + 1 - pt_b (axby_p s)),
                           \<lambda>(czs, s, rs). nat (axby_maxp s + 1 - pt_x (axby_p s)),
                           \<lambda>(czs, s, rs). nat (axby_maxp s + 1 - pt_y (axby_p s))]")
  show "wf (measures [\<lambda>(czs, s, rs). nat (pt_a (axby_p s) + 1 - pt_b (axby_p s)),
                      \<lambda>(czs, s, rs). nat (axby_maxp s + 1 - pt_x (axby_p s)),
                      \<lambda>(czs, s, rs). nat (axby_maxp s + 1 - pt_y (axby_p s))])"
    by simp
next
  fix czs :: "cz list" and s :: axby and rs rs' :: "point list" and found :: bool
    and r :: "axby \<times> bool" and s' :: axby and d :: bool
  assume nx: "axby_next s = Inr r" and r: "(s', d) = r" and nd: "\<not> d"
  have nb: "next_b p = Inr (p', False) \<Longrightarrow>
      pt_a p' = pt_a p \<and> pt_b p \<le> pt_b p' \<and> pt_b p' \<le> pt_a p" for p p'
  proof (induction p rule: next_b.induct)
    case (1 p)
    then show ?case
      by (subst (asm) (2) next_b.simps) (auto split: if_splits)
  qed
  show "((czs, s', rs'), (czs, s, rs)) \<in>
          measures [\<lambda>(czs, s, rs). nat (pt_a (axby_p s) + 1 - pt_b (axby_p s)),
                    \<lambda>(czs, s, rs). nat (axby_maxp s + 1 - pt_x (axby_p s)),
                    \<lambda>(czs, s, rs). nat (axby_maxp s + 1 - pt_y (axby_p s))]"
    using nx r [symmetric] nd
    by (auto simp: axby_next_def Let_def split: if_splits sum.splits prod.splits dest!: nb)
qed

declare work_loop.simps [simp del]

text \<open>
  \<^verbatim>\<open>do_work\<close>, lines 141 to 164. The points found are appended to the vector the caller
  passes.
\<close>

definition do_work :: "work \<Rightarrow> int \<Rightarrow> point list \<Rightarrow> error + point list" where
  "do_work w a results =
     (case axby (work_maxb w) (work_maxp w) a of
        Inl e \<Rightarrow> Inl e
      | Inr pts \<Rightarrow>
          (case axby_next pts of
             Inl e \<Rightarrow> Inl e
           | Inr (pts', done) \<Rightarrow>
               if done then Inr results else work_loop (work_czs w) pts' results))"

subsection \<open>\<^verbatim>\<open>do_work\<close> with the orchestrator as state\<close>

text \<open>
  \<^verbatim>\<open>do_work\<close> is not a \<^verbatim>\<open>const\<close> member function: it may write the members of the
  orchestrator it is called on, and through the pointers of \<^verbatim>\<open>czs_\<close> the tables the
  orchestrator owns. Here the same lines are modelled with that object handed through
  every statement and returned with the vector. The member functions \<^verbatim>\<open>get\<close>, \<^verbatim>\<open>exists\<close>
  and \<^verbatim>\<open>mod\<close> of a table are \<^verbatim>\<open>const\<close>: they return a value only.

  The \<^verbatim>\<open>for\<close> loop over the tables, lines 147 to 157, by its index \<^verbatim>\<open>i\<close>:
  \<^verbatim>\<open>for (i = 0; i < czs_.size(); i++) { cz *czp = czs_[i]; ... }\<close>
\<close>

function found_loop :: "work \<Rightarrow> nat \<Rightarrow> point \<Rightarrow> error + work \<times> bool" where
  "found_loop w i pt =
     (if i < length (work_czs w) then
        (let czp = work_czs w ! i in
         case sieve_arg czp pt of
           Inl e \<Rightarrow> Inl e
         | Inr val \<Rightarrow> if \<not> exists czp val then Inr (w, False) else found_loop w (i + 1) pt)
      else Inr (w, True))"
  by pat_completeness auto
termination
  by (relation "measure (\<lambda>(w, i, pt). length (work_czs w) - i)") auto

declare found_loop.simps [simp del]

text \<open>The \<^verbatim>\<open>while (!done)\<close> loop, lines 146 to 163.\<close>

function work_loop_st :: "work \<Rightarrow> axby \<Rightarrow> point list \<Rightarrow> error + work \<times> point list" where
  "work_loop_st w pts results =
     (case found_loop w 0 (axby_p pts) of
        Inl e \<Rightarrow> Inl e
      | Inr (w', found) \<Rightarrow>
          (let results = (if found then results @ [axby_p pts] else results) in
           case axby_next pts of
             Inl e \<Rightarrow> Inl e
           | Inr (pts', done) \<Rightarrow>
               if done then Inr (w', results) else work_loop_st w' pts' results))"
  by pat_completeness auto
termination
proof (relation "measures [\<lambda>(w, s, rs). nat (pt_a (axby_p s) + 1 - pt_b (axby_p s)),
                           \<lambda>(w, s, rs). nat (axby_maxp s + 1 - pt_x (axby_p s)),
                           \<lambda>(w, s, rs). nat (axby_maxp s + 1 - pt_y (axby_p s))]")
  show "wf (measures [\<lambda>(w, s, rs). nat (pt_a (axby_p s) + 1 - pt_b (axby_p s)),
                      \<lambda>(w, s, rs). nat (axby_maxp s + 1 - pt_x (axby_p s)),
                      \<lambda>(w, s, rs). nat (axby_maxp s + 1 - pt_y (axby_p s))])"
    by simp
next
  fix w w' :: work and s :: axby and rs rs' :: "point list"
    and r :: "axby \<times> bool" and s' :: axby and d :: bool
  assume nx: "axby_next s = Inr r" and r: "(s', d) = r" and nd: "\<not> d"
  have nb: "next_b p = Inr (p', False) \<Longrightarrow>
      pt_a p' = pt_a p \<and> pt_b p \<le> pt_b p' \<and> pt_b p' \<le> pt_a p" for p p'
  proof (induction p rule: next_b.induct)
    case (1 p)
    then show ?case
      by (subst (asm) (2) next_b.simps) (auto split: if_splits)
  qed
  show "((w', s', rs'), (w, s, rs)) \<in>
          measures [\<lambda>(w, s, rs). nat (pt_a (axby_p s) + 1 - pt_b (axby_p s)),
                    \<lambda>(w, s, rs). nat (axby_maxp s + 1 - pt_x (axby_p s)),
                    \<lambda>(w, s, rs). nat (axby_maxp s + 1 - pt_y (axby_p s))]"
    using nx r [symmetric] nd
    by (auto simp: axby_next_def Let_def split: if_splits sum.splits prod.splits dest!: nb)
qed

declare work_loop_st.simps [simp del]

text \<open>\<^verbatim>\<open>do_work\<close>, lines 141 to 164: the orchestrator and the vector after the call.\<close>

definition do_work_st :: "work \<Rightarrow> int \<Rightarrow> point list \<Rightarrow> error + work \<times> point list" where
  "do_work_st w a results =
     (case axby (work_maxb w) (work_maxp w) a of
        Inl e \<Rightarrow> Inl e
      | Inr pts \<Rightarrow>
          (case axby_next pts of
             Inl e \<Rightarrow> Inl e
           | Inr (pts', done) \<Rightarrow>
               if done then Inr (w, results) else work_loop_st w pts' results))"

section \<open>The C interface\<close>

text \<open>
  The copy loop of \<^verbatim>\<open>work_do_work\<close>, lines 187 and 188. The buffer \<^verbatim>\<open>pts\<close> is the list of
  the elements the caller has allocated; a store beyond them is out of range.
\<close>

function copy_results :: "nat \<Rightarrow> point list \<Rightarrow> point list \<Rightarrow> error + point list" where
  "copy_results i results pts =
     (if i < length results then
        (if i < length pts then copy_results (i + 1) results (pts[i := results ! i])
         else Inl UndefinedBehaviour)
      else Inr pts)"
  by pat_completeness auto
termination
  by (relation "measure (\<lambda>(i, results, pts). length results - i)") auto

declare copy_results.simps [simp del]

text \<open>
  \<^verbatim>\<open>work_do_work\<close>, lines 182 to 191: the buffer after the call and the value returned.
\<close>

definition work_do_work :: "work \<Rightarrow> int \<Rightarrow> point list \<Rightarrow> nat \<Rightarrow> error + point list \<times> nat" where
  "work_do_work p a pts len =
     (case do_work p a [] of
        Inl e \<Rightarrow> Inl e
      | Inr results \<Rightarrow>
          if length results \<le> len then
            (case copy_results 0 results pts of
               Inl e \<Rightarrow> Inl e
             | Inr pts' \<Rightarrow> Inr (pts', length results))
          else Inr (pts, length results))"

text \<open>
  \<^verbatim>\<open>cz_make\<close> followed by \<^verbatim>\<open>cz_get\<close> or by \<^verbatim>\<open>cz_exists\<close>, lines 206 to 209 and 216 to
  224.
\<close>

definition cz_make_get :: "nat \<Rightarrow> nat \<Rightarrow> nat \<Rightarrow> int \<Rightarrow> int \<Rightarrow> error + nat" where
  "cz_make_get maxb maxp m c z =
     (case cz maxb maxp m of Inl e \<Rightarrow> Inl e | Inr t \<Rightarrow> get t c z)"

definition cz_make_exists :: "nat \<Rightarrow> nat \<Rightarrow> nat \<Rightarrow> nat \<Rightarrow> error + bool" where
  "cz_make_exists maxb maxp m val =
     (case cz maxb maxp m of Inl e \<Rightarrow> Inl e | Inr t \<Rightarrow> Inr (exists t val))"

section \<open>The specification's descriptions\<close>

text \<open>
  The slice of the search space that the spec describes for a fixed \<open>a\<close>: every
  \<open>(a, x, b, y)\<close> with \<open>1 \<le> b \<le> a\<close>, \<open>gcd a b = 1\<close> and \<open>3 \<le> x, y \<le> maxp\<close>, once, with \<open>y\<close>
  varying fastest, then \<open>x\<close>, then \<open>b\<close>.
\<close>

definition points_spec :: "int \<Rightarrow> int \<Rightarrow> point list" where
  "points_spec maxp a =
     [\<lparr>pt_a = a, pt_x = x, pt_b = b, pt_y = y\<rparr>.
        b \<leftarrow> [1..a], gcd a b = 1, x \<leftarrow> [3..maxp], y \<leftarrow> [3..maxp]]"

text \<open>The parts of that list that lie after a cursor: the rest of a row, of a block, of the slice.\<close>

definition row_spec :: "int \<Rightarrow> int \<Rightarrow> int \<Rightarrow> int \<Rightarrow> int \<Rightarrow> point list" where
  "row_spec maxp a b x y0 = map (\<lambda>y. \<lparr>pt_a = a, pt_x = x, pt_b = b, pt_y = y\<rparr>) [y0..maxp]"

definition rows_spec :: "int \<Rightarrow> int \<Rightarrow> int \<Rightarrow> int \<Rightarrow> point list" where
  "rows_spec maxp a b x0 = concat (map (\<lambda>x. row_spec maxp a b x 3) [x0..maxp])"

definition slice_spec :: "int \<Rightarrow> int \<Rightarrow> int \<Rightarrow> point list" where
  "slice_spec maxp a b0 =
     concat (map (\<lambda>b. rows_spec maxp a b 3) (filter (\<lambda>b. gcd a b = 1) [b0..a]))"

text \<open>
  The spec's filter of the search: a point passes a table when
  \<^verbatim>\<open>exists((get(a,x) + get(b,y)) mod modulus)\<close>, and it is retained when it passes every
  table.
\<close>

definition sieve_ok :: "cz \<Rightarrow> point \<Rightarrow> bool" where
  "sieve_ok t p =
     (case (get t (pt_a p) (pt_x p), get t (pt_b p) (pt_y p)) of
        (Inr gax, Inr gby) \<Rightarrow> exists t ((gax + gby) mod cz_mod t)
      | _ \<Rightarrow> False)"

definition search_spec :: "cz list \<Rightarrow> point list \<Rightarrow> point list" where
  "search_spec czs pts = filter (\<lambda>p. list_all (\<lambda>t. sieve_ok t p) czs) pts"

text \<open>
  What holds of the state of an enumerator between two calls of \<^verbatim>\<open>next\<close>: the cursor is
  within the bounds (\<open>y\<close> is one short of 3 before the first call).
\<close>

definition axby_inv :: "axby \<Rightarrow> bool" where
  "axby_inv s =
     (pt_a (axby_p s) = axby_a_dim s \<and>
      1 \<le> pt_b (axby_p s) \<and> pt_b (axby_p s) \<le> pt_a (axby_p s) \<and>
      3 \<le> pt_x (axby_p s) \<and> pt_x (axby_p s) \<le> axby_maxp s \<and>
      2 \<le> pt_y (axby_p s) \<and> pt_y (axby_p s) \<le> axby_maxp s)"

section \<open>The residue table after construction\<close>

lemma cz_loop_z_length:
  "length (fst (cz_loop_z c z maxp m (vs, ex))) = length vs"
proof (induction c z maxp m "(vs, ex)" arbitrary: vs ex rule: cz_loop_z.induct)
  case (1 c z maxp m vs ex)
  show ?case
  proof (cases "z \<le> maxp")
    case True
    then show ?thesis
      using "1" [OF True refl] by (simp add: cz_loop_z.simps [of c z] Let_def)
  next
    case False
    then show ?thesis by (simp add: cz_loop_z.simps [of c z] Let_def)
  qed
qed

lemma cz_loop_z_other:
  "c' \<noteq> c \<Longrightarrow> fst (cz_loop_z c z maxp m (vs, ex)) ! c' = vs ! c'"
proof (induction c z maxp m "(vs, ex)" arbitrary: vs ex rule: cz_loop_z.induct)
  case (1 c z maxp m vs ex)
  show ?case
  proof (cases "z \<le> maxp")
    case True
    then show ?thesis
      using "1.hyps" [OF True refl] "1.prems" by (simp add: cz_loop_z.simps [of c z] Let_def)
  next
    case False
    then show ?thesis by (simp add: cz_loop_z.simps [of c z] Let_def)
  qed
qed

lemma cz_loop_z_row:
  "c < length vs \<Longrightarrow>
   length (fst (cz_loop_z c z maxp m (vs, ex)) ! c) = length (vs ! c) \<and>
   (\<forall>z'. z' < length (vs ! c) \<longrightarrow> fst (cz_loop_z c z maxp m (vs, ex)) ! c ! z' =
      (if z \<le> z' \<and> z' \<le> maxp then modpow c z' m else vs ! c ! z'))"
proof (induction c z maxp m "(vs, ex)" arbitrary: vs ex rule: cz_loop_z.induct)
  case (1 c z maxp m vs ex)
  show ?case
  proof (cases "z \<le> maxp")
    case True
    have len: "c < length (vs[c := (vs ! c)[z := modpow c z m]])"
      using "1.prems" by simp
    have eq: "\<And>z'. \<not> Suc z \<le> z' \<Longrightarrow> z \<le> z' \<Longrightarrow> z' = z" by arith
    show ?thesis
      using "1.hyps" [OF True refl len] "1.prems" True
      by (auto simp: cz_loop_z.simps [of c z] nth_list_update Let_def dest: eq)
  next
    case False
    then show ?thesis by (simp add: cz_loop_z.simps [of c z] Let_def)
  qed
qed

lemma cz_loop_z_exists:
  "snd (cz_loop_z c z maxp m (vs, ex)) v =
     (ex v \<or> (\<exists>z'. z \<le> z' \<and> z' \<le> maxp \<and> modpow c z' m = v))"
proof (induction c z maxp m "(vs, ex)" arbitrary: vs ex rule: cz_loop_z.induct)
  case (1 c z maxp m vs ex)
  show ?case
  proof (cases "z \<le> maxp")
    case True
    have "snd (cz_loop_z c z maxp m (vs, ex)) v =
          ((ex(modpow c z m := True)) v \<or> (\<exists>z'. z + 1 \<le> z' \<and> z' \<le> maxp \<and> modpow c z' m = v))"
      using "1.hyps" [OF True refl] True by (simp add: cz_loop_z.simps [of c z] Let_def)
    also have "\<dots> = (ex v \<or> (\<exists>z'. z \<le> z' \<and> z' \<le> maxp \<and> modpow c z' m = v))"
    proof -
      have "\<And>z'. (z \<le> z') = (z' = z \<or> z + 1 \<le> z')" by auto
      then show ?thesis using True by auto
    qed
    finally show ?thesis .
  next
    case False
    then show ?thesis by (auto simp: cz_loop_z.simps [of c z] Let_def)
  qed
qed


lemma cz_loop_c_length:
  "length (fst (cz_loop_c c maxb maxp m (vs, ex))) = length vs"
proof (induction c maxb maxp m "(vs, ex)" arbitrary: vs ex rule: cz_loop_c.induct)
  case (1 c maxb maxp m vs ex)
  show ?case
  proof (cases "c \<le> maxb")
    case True
    obtain vs' ex' where
      z: "cz_loop_z c 3 maxp m (vs[c := resize (vs ! c) (maxp + 1) 0], ex) = (vs', ex')"
      by (cases "cz_loop_z c 3 maxp m (vs[c := resize (vs ! c) (maxp + 1) 0], ex)")
    have "length vs' = length vs"
      using cz_loop_z_length [of c 3 maxp m "vs[c := resize (vs ! c) (maxp + 1) 0]" ex] z
      by simp
    then show ?thesis
      using "1" [OF True z] True z by (simp add: cz_loop_c.simps [of c maxb])
  next
    case False
    then show ?thesis by (simp add: cz_loop_c.simps [of c maxb])
  qed
qed

lemma cz_loop_c_below:
  "c' < c \<Longrightarrow> fst (cz_loop_c c maxb maxp m (vs, ex)) ! c' = vs ! c'"
proof (induction c maxb maxp m "(vs, ex)" arbitrary: vs ex rule: cz_loop_c.induct)
  case (1 c maxb maxp m vs ex)
  show ?case
  proof (cases "c \<le> maxb")
    case True
    obtain vs' ex' where
      z: "cz_loop_z c 3 maxp m (vs[c := resize (vs ! c) (maxp + 1) 0], ex) = (vs', ex')"
      by (cases "cz_loop_z c 3 maxp m (vs[c := resize (vs ! c) (maxp + 1) 0], ex)")
    have "vs' ! c' = vs ! c'"
      using cz_loop_z_other [of c' c 3 maxp m "vs[c := resize (vs ! c) (maxp + 1) 0]" ex]
        z "1.prems"
      by simp
    moreover have "fst (cz_loop_c (c + 1) maxb maxp m (vs', ex')) ! c' = vs' ! c'"
      using "1.hyps" [OF True z] "1.prems" by simp
    ultimately show ?thesis
      using True z by (simp add: cz_loop_c.simps [of c maxb])
  next
    case False
    then show ?thesis by (simp add: cz_loop_c.simps [of c maxb])
  qed
qed

lemma cz_loop_c_rows:
  "maxb < length vs \<Longrightarrow> c \<le> c' \<Longrightarrow> c' \<le> maxb \<Longrightarrow>
   length (fst (cz_loop_c c maxb maxp m (vs, ex)) ! c') = maxp + 1 \<and>
   (\<forall>z. 3 \<le> z \<and> z \<le> maxp \<longrightarrow>
      fst (cz_loop_c c maxb maxp m (vs, ex)) ! c' ! z = modpow c' z m)"
proof (induction c maxb maxp m "(vs, ex)" arbitrary: vs ex rule: cz_loop_c.induct)
  case (1 c maxb maxp m vs ex)
  from "1.prems" have True: "c \<le> maxb" by simp
  let ?vs0 = "vs[c := resize (vs ! c) (maxp + 1) 0]"
  obtain vs' ex' where z: "cz_loop_z c 3 maxp m (?vs0, ex) = (vs', ex')"
    by (cases "cz_loop_z c 3 maxp m (?vs0, ex)")
  have c_in: "c < length ?vs0" using "1.prems" by simp
  have row0: "length (?vs0 ! c) = maxp + 1"
    using "1.prems" by (simp add: resize_def)
  have len': "length vs' = length vs"
    using cz_loop_z_length [of c 3 maxp m ?vs0 ex] z by simp
  have unfold: "cz_loop_c c maxb maxp m (vs, ex) = cz_loop_c (c + 1) maxb maxp m (vs', ex')"
    using True z by (simp add: cz_loop_c.simps [of c maxb])
  show ?case
  proof (cases "c' = c")
    case True
    have keep: "fst (cz_loop_c (c + 1) maxb maxp m (vs', ex')) ! c = vs' ! c"
      by (rule cz_loop_c_below) simp
    have row: "length (vs' ! c) = maxp + 1 \<and>
      (\<forall>z'. z' < maxp + 1 \<longrightarrow> vs' ! c ! z' =
         (if 3 \<le> z' \<and> z' \<le> maxp then modpow c z' m else ?vs0 ! c ! z'))"
      using cz_loop_z_row [OF c_in, of 3 maxp m ex] z row0 by simp
    show ?thesis
      using True unfold keep row by auto
  next
    case False
    with "1.prems" have "c + 1 \<le> c'" by simp
    then show ?thesis
      using "1.hyps" [OF True z] "1.prems" len' unfold by simp
  qed
qed

lemma cz_loop_c_exists:
  "snd (cz_loop_c c maxb maxp m (vs, ex)) v =
     (ex v \<or> (\<exists>c' z. c \<le> c' \<and> c' \<le> maxb \<and> 3 \<le> z \<and> z \<le> maxp \<and> modpow c' z m = v))"
proof (induction c maxb maxp m "(vs, ex)" arbitrary: vs ex rule: cz_loop_c.induct)
  case (1 c maxb maxp m vs ex)
  show ?case
  proof (cases "c \<le> maxb")
    case True
    let ?vs0 = "vs[c := resize (vs ! c) (maxp + 1) 0]"
    obtain vs' ex' where z: "cz_loop_z c 3 maxp m (?vs0, ex) = (vs', ex')"
      by (cases "cz_loop_z c 3 maxp m (?vs0, ex)")
    have ex': "ex' v = (ex v \<or> (\<exists>z. 3 \<le> z \<and> z \<le> maxp \<and> modpow c z m = v))"
      using cz_loop_z_exists [of c 3 maxp m ?vs0 ex v] z by simp
    have "snd (cz_loop_c c maxb maxp m (vs, ex)) v =
          (ex' v \<or> (\<exists>c' z. c + 1 \<le> c' \<and> c' \<le> maxb \<and> 3 \<le> z \<and> z \<le> maxp \<and> modpow c' z m = v))"
      using "1.hyps" [OF True z] True z by (simp add: cz_loop_c.simps [of c maxb])
    also have "\<dots> = (ex v \<or> (\<exists>c' z. c \<le> c' \<and> c' \<le> maxb \<and> 3 \<le> z \<and> z \<le> maxp \<and> modpow c' z m = v))"
    proof -
      have split: "\<And>c'. (c \<le> c') = (c' = c \<or> c + 1 \<le> c')" by auto
      show ?thesis unfolding ex' using True by (auto simp: split)
    qed
    finally show ?thesis .
  next
    case False
    then show ?thesis by (auto simp: cz_loop_c.simps [of c maxb])
  qed
qed


lemma cz_built:
  assumes "cz maxb maxp m = Inr t"
  shows "0 < maxb" and "maxb < UINT_MAX" and "2 < maxp" and "maxp < UINT_MAX" and "0 < m"
    and "cz_mod t = m" and "length (cz_vals t) = maxb + 1"
    and "\<And>c. 1 \<le> c \<Longrightarrow> c \<le> maxb \<Longrightarrow> length (cz_vals t ! c) = maxp + 1"
    and "\<And>c z. 1 \<le> c \<Longrightarrow> c \<le> maxb \<Longrightarrow> 3 \<le> z \<Longrightarrow> z \<le> maxp \<Longrightarrow>
           cz_vals t ! c ! z = modpow c z m"
    and "\<And>v. cz_exists t v =
           (\<exists>c z. 1 \<le> c \<and> c \<le> maxb \<and> 3 \<le> z \<and> z \<le> maxp \<and> modpow c z m = v)"
proof -
  from assms show guards: "0 < maxb" "maxb < UINT_MAX" "2 < maxp" "maxp < UINT_MAX" "0 < m"
    by (auto simp: cz_def split: if_splits)
  let ?r = "cz_loop_c 1 maxb maxp m (replicate (maxb + 1) [], (\<lambda>v. False))"
  from assms guards have t: "t = \<lparr>cz_vals = fst ?r, cz_exists = snd ?r, cz_mod = m\<rparr>"
    by (auto simp: cz_def split: prod.splits)
  show "cz_mod t = m" by (simp add: t)
  show "length (cz_vals t) = maxb + 1"
    by (simp add: t cz_loop_c_length)
  have rows: "length (fst ?r ! c) = maxp + 1 \<and>
      (\<forall>z. 3 \<le> z \<and> z \<le> maxp \<longrightarrow> fst ?r ! c ! z = modpow c z m)"
    if "1 \<le> c" "c \<le> maxb" for c
    using that by (intro cz_loop_c_rows) simp_all
  show "length (cz_vals t ! c) = maxp + 1" if "1 \<le> c" "c \<le> maxb" for c
    using rows [OF that] by (simp add: t)
  show "cz_vals t ! c ! z = modpow c z m"
    if "1 \<le> c" "c \<le> maxb" "3 \<le> z" "z \<le> maxp" for c z
    using rows [OF that(1,2)] that(3,4) by (simp add: t)
  show "cz_exists t v =
      (\<exists>c z. 1 \<le> c \<and> c \<le> maxb \<and> 3 \<le> z \<and> z \<le> maxp \<and> modpow c z m = v)" for v
    by (simp add: t cz_loop_c_exists)
qed

lemma cz_builds:
  "0 < maxb \<Longrightarrow> maxb < UINT_MAX \<Longrightarrow> 2 < maxp \<Longrightarrow> maxp < UINT_MAX \<Longrightarrow> 0 < m \<Longrightarrow>
   \<exists>t. cz maxb maxp m = Inr t"
  by (simp add: cz_def split: prod.splits)

lemma get_built:
  assumes "cz maxb maxp m = Inr t"
    and "1 \<le> c" "c \<le> int maxb" "3 \<le> z" "z \<le> int maxp"
  shows "get t c z = Inr (modpow (nat c) (nat z) m)"
proof -
  have c: "1 \<le> nat c" "nat c \<le> maxb" and z: "3 \<le> nat z" "nat z \<le> maxp"
    using assms(2-5) by auto
  show ?thesis
    using cz_built(7) [OF assms(1)] cz_built(8) [OF assms(1) c]
      cz_built(9) [OF assms(1) c z] c z assms(2,4)
    by (simp add: get_def)
qed

section \<open>The enumeration of a slice\<close>

lemma to_unsigned_nat: "0 \<le> i \<Longrightarrow> i \<le> INT_MAX \<Longrightarrow> to_unsigned i = nat i"
  by (simp add: to_unsigned_def INT_MAX_def)

lemma gcd_u_int:
  assumes "0 < a" "a \<le> INT_MAX" "0 \<le> b" "b \<le> INT_MAX"
  shows "(gcd_u (to_unsigned a) (to_unsigned b) > 1) = (gcd a b \<noteq> 1)"
proof -
  have "int (gcd (nat a) (nat b)) = gcd (int (nat a)) (int (nat b))"
    by (simp only: gcd_int_int_eq)
  then have eq: "int (gcd (nat a) (nat b)) = gcd a b"
    using assms by simp
  have pos: "0 < gcd a b"
    using assms(1) by simp
  have "(1 < gcd (nat a) (nat b)) = (1 < gcd a b)"
    using eq by linarith
  also have "\<dots> = (gcd a b \<noteq> 1)"
    using pos by linarith
  finally show ?thesis
    using assms by (simp add: gcd_u_def to_unsigned_nat)
qed

lemma filter_upto_Cons:
  "filter P [i..j] = b # bs \<Longrightarrow> i \<le> b \<and> b \<le> j \<and> P b \<and> bs = filter P [b + 1..j]"
proof (induction i j rule: upto.induct)
  case (1 i j)
  show ?case
  proof (cases "i \<le> j")
    case True
    then have rec: "[i..j] = i # [i + 1..j]" by (simp add: upto_rec1)
    show ?thesis
    proof (cases "P i")
      case True
      with "1.prems" rec \<open>i \<le> j\<close> show ?thesis by auto
    next
      case False
      with "1.prems" rec have "filter P [i + 1..j] = b # bs" by simp
      from "1.IH" [OF True this] show ?thesis by simp
    qed
  next
    case False
    with "1.prems" show ?thesis by simp
  qed
qed

lemma next_b_spec:
  "0 < pt_a p \<Longrightarrow> pt_a p < INT_MAX \<Longrightarrow> 0 \<le> pt_b p \<Longrightarrow>
   (filter (\<lambda>b. gcd (pt_a p) b = 1) [pt_b p..pt_a p] = [] \<longrightarrow>
      (\<exists>p'. next_b p = Inr (p', True))) \<and>
   (\<forall>b' bs. filter (\<lambda>b. gcd (pt_a p) b = 1) [pt_b p..pt_a p] = b' # bs \<longrightarrow>
      next_b p = Inr (p\<lparr>pt_b := b'\<rparr>, False))"
proof (induction p rule: next_b.induct)
  case (1 p)
  show ?case
  proof (cases "pt_b p > pt_a p")
    case True
    then show ?thesis
      using "1.prems" by (simp add: next_b.simps [of p])
  next
    case le: False
    then have rec: "[pt_b p..pt_a p] = pt_b p # [pt_b p + 1..pt_a p]"
      by (simp add: upto_rec1)
    have g: "(gcd_u (to_unsigned (pt_a p)) (to_unsigned (pt_b p)) > 1) = (gcd (pt_a p) (pt_b p) \<noteq> 1)"
      using "1.prems" le by (intro gcd_u_int) simp_all
    show ?thesis
    proof (cases "gcd (pt_a p) (pt_b p) = 1")
      case True
      then show ?thesis
        using le g rec by (simp add: next_b.simps [of p])
    next
      case False
      have nmax: "pt_b p \<noteq> INT_MAX" using le "1.prems" by simp
      have step: "next_b p = next_b (p\<lparr>pt_b := pt_b p + 1\<rparr>)"
        using le g False nmax by (simp add: next_b.simps [of p])
      have "1 < gcd_u (to_unsigned (pt_a p)) (to_unsigned (pt_b p))"
        using g False by simp
      from "1.IH" [OF le this nmax] "1.prems"
      show ?thesis
        using False rec step by simp
    qed
  qed
qed


lemma axby_next_y:
  assumes "pt_a (axby_p s) = axby_a_dim s" "pt_y (axby_p s) < axby_maxp s"
    "axby_maxp s \<le> INT_MAX"
  shows "axby_next s = Inr (s\<lparr>axby_p := (axby_p s)\<lparr>pt_y := pt_y (axby_p s) + 1\<rparr>\<rparr>, False)"
  using assms by (simp add: axby_next_def Let_def)

lemma axby_next_x:
  assumes "pt_a (axby_p s) = axby_a_dim s" "pt_y (axby_p s) = axby_maxp s"
    "pt_x (axby_p s) < axby_maxp s" "axby_maxp s < INT_MAX"
  shows "axby_next s =
    Inr (s\<lparr>axby_p := (axby_p s)\<lparr>pt_x := pt_x (axby_p s) + 1, pt_y := 3\<rparr>\<rparr>, False)"
  using assms by (simp add: axby_next_def Let_def)

lemma axby_next_b:
  assumes "pt_a (axby_p s) = axby_a_dim s" "pt_y (axby_p s) = axby_maxp s"
    "pt_x (axby_p s) = axby_maxp s" "axby_maxp s < INT_MAX"
    "0 \<le> pt_b (axby_p s)" "pt_b (axby_p s) \<le> pt_a (axby_p s)" "pt_a (axby_p s) < INT_MAX"
  shows "axby_next s =
    (case next_b ((axby_p s)\<lparr>pt_y := 3, pt_x := 3, pt_b := pt_b (axby_p s) + 1\<rparr>) of
       Inl e \<Rightarrow> Inl e
     | Inr (p', d) \<Rightarrow> Inr (s\<lparr>axby_p := p'\<rparr>, d))"
  using assms by (simp add: axby_next_def Let_def)

lemma axby_next_b_found:
  assumes "pt_a (axby_p s) = axby_a_dim s" "pt_y (axby_p s) = axby_maxp s"
    "pt_x (axby_p s) = axby_maxp s" "axby_maxp s < INT_MAX"
    "1 \<le> pt_b (axby_p s)" "pt_b (axby_p s) \<le> pt_a (axby_p s)" "pt_a (axby_p s) < INT_MAX"
    "filter (\<lambda>b. gcd (pt_a (axby_p s)) b = 1) [pt_b (axby_p s) + 1..pt_a (axby_p s)] = b' # bs"
  shows "axby_next s = Inr (s\<lparr>axby_p := (axby_p s)\<lparr>pt_y := 3, pt_x := 3, pt_b := b'\<rparr>\<rparr>, False)"
proof -
  let ?p = "(axby_p s)\<lparr>pt_y := 3, pt_x := 3, pt_b := pt_b (axby_p s) + 1\<rparr>"
  have "next_b ?p = Inr (?p\<lparr>pt_b := b'\<rparr>, False)"
    using next_b_spec [of ?p] assms by simp
  then show ?thesis
    using assms by (simp add: axby_next_b)
qed

lemma axby_next_b_done:
  assumes "pt_a (axby_p s) = axby_a_dim s" "pt_y (axby_p s) = axby_maxp s"
    "pt_x (axby_p s) = axby_maxp s" "axby_maxp s < INT_MAX"
    "1 \<le> pt_b (axby_p s)" "pt_b (axby_p s) \<le> pt_a (axby_p s)" "pt_a (axby_p s) < INT_MAX"
    "filter (\<lambda>b. gcd (pt_a (axby_p s)) b = 1) [pt_b (axby_p s) + 1..pt_a (axby_p s)] = []"
  shows "\<exists>s'. axby_next s = Inr (s', True)"
proof -
  let ?p = "(axby_p s)\<lparr>pt_y := 3, pt_x := 3, pt_b := pt_b (axby_p s) + 1\<rparr>"
  have "\<exists>p'. next_b ?p = Inr (p', True)"
    using next_b_spec [of ?p] assms by simp
  then show ?thesis
    using assms by (auto simp: axby_next_b)
qed

lemma row_spec_Cons:
  "y0 \<le> maxp \<Longrightarrow>
   row_spec maxp a b x y0 = \<lparr>pt_a = a, pt_x = x, pt_b = b, pt_y = y0\<rparr> # row_spec maxp a b x (y0 + 1)"
  by (simp add: row_spec_def upto_rec1)

lemma row_spec_Nil: "maxp < y0 \<Longrightarrow> row_spec maxp a b x y0 = []"
  by (simp add: row_spec_def)

lemma rows_spec_Cons:
  "x0 \<le> maxp \<Longrightarrow> rows_spec maxp a b x0 = row_spec maxp a b x0 3 @ rows_spec maxp a b (x0 + 1)"
  by (simp add: rows_spec_def upto_rec1)

lemma rows_spec_Nil: "maxp < x0 \<Longrightarrow> rows_spec maxp a b x0 = []"
  by (simp add: rows_spec_def)

lemma slice_spec_Cons:
  assumes "filter (\<lambda>b. gcd a b = 1) [b0..a] = b' # bs"
  shows "slice_spec maxp a b0 = rows_spec maxp a b' 3 @ slice_spec maxp a (b' + 1)"
  using filter_upto_Cons [OF assms] assms by (simp add: slice_spec_def)

lemma slice_spec_Nil:
  "filter (\<lambda>b. gcd a b = 1) [b0..a] = [] \<Longrightarrow> slice_spec maxp a b0 = []"
  by (simp add: slice_spec_def)

lemma axby_run_spec:
  "axby_inv s \<Longrightarrow> axby_maxp s < INT_MAX \<Longrightarrow> pt_a (axby_p s) < INT_MAX \<Longrightarrow>
   axby_run s =
     Inr (row_spec (axby_maxp s) (pt_a (axby_p s)) (pt_b (axby_p s)) (pt_x (axby_p s))
            (pt_y (axby_p s) + 1)
          @ rows_spec (axby_maxp s) (pt_a (axby_p s)) (pt_b (axby_p s)) (pt_x (axby_p s) + 1)
          @ slice_spec (axby_maxp s) (pt_a (axby_p s)) (pt_b (axby_p s) + 1))"
proof (induction s rule: axby_run.induct)
  case (1 s)
  define p where "p = axby_p s"
  define maxp where "maxp = axby_maxp s"
  have inv: "pt_a p = axby_a_dim s" "1 \<le> pt_b p" "pt_b p \<le> pt_a p"
    "3 \<le> pt_x p" "pt_x p \<le> maxp" "2 \<le> pt_y p" "pt_y p \<le> maxp"
    using "1.prems"(1) by (auto simp: axby_inv_def p_def maxp_def)
  have bnd: "maxp < INT_MAX" "pt_a p < INT_MAX"
    using "1.prems"(2,3) by (simp_all add: p_def maxp_def)
  have pp: "p = \<lparr>pt_a = pt_a p, pt_x = pt_x p, pt_b = pt_b p, pt_y = pt_y p\<rparr>"
    by simp
  consider (y) "pt_y p < maxp" | (x) "pt_y p = maxp" "pt_x p < maxp"
    | (b) "pt_y p = maxp" "pt_x p = maxp"
    using inv by linarith
  then show ?case
  proof cases
    case y
    let ?s' = "s\<lparr>axby_p := p\<lparr>pt_y := pt_y p + 1\<rparr>\<rparr>"
    have nx: "axby_next s = Inr (?s', False)"
      using axby_next_y [of s] inv y bnd by (simp add: p_def maxp_def)
    have inv': "axby_inv ?s'"
      using inv y by (simp add: axby_inv_def maxp_def)
    have "axby_run ?s' =
      Inr (row_spec maxp (pt_a p) (pt_b p) (pt_x p) (pt_y p + 1 + 1)
           @ rows_spec maxp (pt_a p) (pt_b p) (pt_x p + 1)
           @ slice_spec maxp (pt_a p) (pt_b p + 1))"
      using "1.IH" [OF nx refl _ inv'] bnd by (simp add: maxp_def)
    moreover have "row_spec maxp (pt_a p) (pt_b p) (pt_x p) (pt_y p + 1) =
        axby_p ?s' # row_spec maxp (pt_a p) (pt_b p) (pt_x p) (pt_y p + 1 + 1)"
      using y by (subst row_spec_Cons) simp_all
    ultimately show ?thesis
      by (subst axby_run.simps) (simp add: nx flip: p_def maxp_def)
  next
    case x
    let ?s' = "s\<lparr>axby_p := p\<lparr>pt_x := pt_x p + 1, pt_y := 3\<rparr>\<rparr>"
    have nx: "axby_next s = Inr (?s', False)"
      using axby_next_x [of s] inv x bnd by (simp add: p_def maxp_def)
    have inv': "axby_inv ?s'"
      using inv x by (simp add: axby_inv_def maxp_def)
    have "axby_run ?s' =
      Inr (row_spec maxp (pt_a p) (pt_b p) (pt_x p + 1) (3 + 1)
           @ rows_spec maxp (pt_a p) (pt_b p) (pt_x p + 1 + 1)
           @ slice_spec maxp (pt_a p) (pt_b p + 1))"
      using "1.IH" [OF nx refl _ inv'] bnd by (simp add: maxp_def)
    moreover have "row_spec maxp (pt_a p) (pt_b p) (pt_x p) (pt_y p + 1) = []"
      using x by (simp add: row_spec_Nil)
    moreover have "rows_spec maxp (pt_a p) (pt_b p) (pt_x p + 1) =
        (axby_p ?s' # row_spec maxp (pt_a p) (pt_b p) (pt_x p + 1) (3 + 1))
        @ rows_spec maxp (pt_a p) (pt_b p) (pt_x p + 1 + 1)"
      using x inv by (subst rows_spec_Cons, simp, subst row_spec_Cons) simp_all
    ultimately show ?thesis
      by (subst axby_run.simps) (simp add: nx flip: p_def maxp_def)
  next
    case b
    have r0: "row_spec maxp (pt_a p) (pt_b p) (pt_x p) (pt_y p + 1) = []"
      using b by (simp add: row_spec_Nil)
    have r1: "rows_spec maxp (pt_a p) (pt_b p) (pt_x p + 1) = []"
      using b by (simp add: rows_spec_Nil)
    show ?thesis
    proof (cases "filter (\<lambda>b. gcd (pt_a p) b = 1) [pt_b p + 1..pt_a p]")
      case Nil
      obtain s' where nx: "axby_next s = Inr (s', True)"
        using axby_next_b_done [of s] inv b bnd Nil by (auto simp: p_def maxp_def)
      show ?thesis
        using r0 r1 slice_spec_Nil [OF Nil, of maxp]
        by (subst axby_run.simps) (simp add: nx flip: p_def maxp_def)
    next
      case (Cons b' bs)
      let ?s' = "s\<lparr>axby_p := p\<lparr>pt_y := 3, pt_x := 3, pt_b := b'\<rparr>\<rparr>"
      have nx: "axby_next s = Inr (?s', False)"
        using axby_next_b_found [of s b' bs] inv b bnd Cons by (simp add: p_def maxp_def)
      have b': "pt_b p + 1 \<le> b'" "b' \<le> pt_a p" "gcd (pt_a p) b' = 1"
        using filter_upto_Cons [OF Cons] by simp_all
      have inv': "axby_inv ?s'"
        using inv b b' by (simp add: axby_inv_def maxp_def)
      have "axby_run ?s' =
        Inr (row_spec maxp (pt_a p) b' 3 (3 + 1)
             @ rows_spec maxp (pt_a p) b' (3 + 1)
             @ slice_spec maxp (pt_a p) (b' + 1))"
        using "1.IH" [OF nx refl _ inv'] bnd by (simp add: maxp_def)
      moreover have "slice_spec maxp (pt_a p) (pt_b p + 1) =
          (axby_p ?s' # row_spec maxp (pt_a p) b' 3 (3 + 1))
          @ rows_spec maxp (pt_a p) b' (3 + 1)
          @ slice_spec maxp (pt_a p) (b' + 1)"
        using inv b
        by (subst slice_spec_Cons [OF Cons], subst rows_spec_Cons, simp, subst row_spec_Cons)
          simp_all
      ultimately show ?thesis
        using r0 r1 by (subst axby_run.simps) (simp add: nx flip: p_def maxp_def)
    qed
  qed
qed


lemma concat_map_if_filter:
  "concat (map (\<lambda>x. if P x then f x else []) xs) = concat (map f (filter P xs))"
  by (induction xs) simp_all

lemma points_spec_slice: "points_spec maxp a = slice_spec maxp a 1"
  by (simp add: points_spec_def slice_spec_def rows_spec_def row_spec_def concat_map_if_filter)

lemma points_spec_product:
  "points_spec maxp a =
     map (\<lambda>(b, x, y). \<lparr>pt_a = a, pt_x = x, pt_b = b, pt_y = y\<rparr>)
       (List.product (filter (\<lambda>b. gcd a b = 1) [1..a]) (List.product [3..maxp] [3..maxp]))"
  by (simp add: points_spec_def concat_map_if_filter product_concat_map map_concat comp_def)

lemma distinct_points_spec: "distinct (points_spec maxp a)"
  unfolding points_spec_product
  by (auto simp: distinct_map distinct_product inj_on_def)

lemma set_points_spec:
  "set (points_spec maxp a) =
     {p. pt_a p = a \<and> 1 \<le> pt_b p \<and> pt_b p \<le> a \<and> gcd a (pt_b p) = 1 \<and>
         3 \<le> pt_x p \<and> pt_x p \<le> maxp \<and> 3 \<le> pt_y p \<and> pt_y p \<le> maxp}"
  (is "?L = ?R")
proof -
  let ?f = "\<lambda>(b, x, y). \<lparr>pt_a = a, pt_x = x, pt_b = b, pt_y = y\<rparr>"
  let ?D = "{b. 1 \<le> b \<and> b \<le> a \<and> gcd a b = 1} \<times> {3..maxp} \<times> {3..maxp}"
  have L: "?L = ?f ` ?D"
    by (simp add: points_spec_product)
  have "?f ` ?D \<subseteq> ?R"
    by auto
  moreover have "?R \<subseteq> ?f ` ?D"
  proof
    fix p
    assume p: "p \<in> ?R"
    then have "(pt_b p, pt_x p, pt_y p) \<in> ?D"
      by simp
    moreover have "p = ?f (pt_b p, pt_x p, pt_y p)"
      using p by simp
    ultimately show "p \<in> ?f ` ?D"
      by (rule rev_image_eqI)
  qed
  ultimately show ?thesis
    unfolding L by (rule equalityI)
qed

lemma hd_points_spec:
  assumes "0 < a" "2 < maxp"
  shows "hd (points_spec maxp a) = \<lparr>pt_a = a, pt_x = 3, pt_b = 1, pt_y = 3\<rparr>"
proof -
  have "filter (\<lambda>b. gcd a b = 1) [1..a] = 1 # filter (\<lambda>b. gcd a b = 1) [1 + 1..a]"
    using assms by (simp add: upto_rec1 [of 1 a])
  then have "slice_spec maxp a 1 = rows_spec maxp a 1 3 @ slice_spec maxp a (1 + 1)"
    by (rule slice_spec_Cons)
  then show ?thesis
    using assms by (simp add: points_spec_slice rows_spec_Cons row_spec_Cons)
qed

lemma axby_points_spec:
  assumes "0 < maxb" "2 < maxp" "maxp < INT_MAX" "0 < a" "a < INT_MAX"
  shows "axby_points maxb maxp a = Inr (points_spec maxp a)"
proof -
  let ?s = "\<lparr>axby_maxb = maxb, axby_maxp = maxp,
             axby_p = \<lparr>pt_a = a, pt_x = 3, pt_b = 1, pt_y = 2\<rparr>, axby_a_dim = a\<rparr>"
  have mk: "axby maxb maxp a = Inr ?s"
    using assms by (simp add: axby_def)
  have inv: "axby_inv ?s"
    using assms by (simp add: axby_inv_def)
  have "axby_run ?s =
      Inr (row_spec maxp a 1 3 (2 + 1) @ rows_spec maxp a 1 (3 + 1) @ slice_spec maxp a (1 + 1))"
    using axby_run_spec [OF inv] assms by simp
  moreover have "filter (\<lambda>b. gcd a b = 1) [1..a] = 1 # filter (\<lambda>b. gcd a b = 1) [1 + 1..a]"
    using assms by (simp add: upto_rec1 [of 1 a])
  then have "slice_spec maxp a 1 = rows_spec maxp a 1 3 @ slice_spec maxp a (1 + 1)"
    by (rule slice_spec_Cons)
  moreover have "rows_spec maxp a 1 3 = row_spec maxp a 1 3 3 @ rows_spec maxp a 1 (3 + 1)"
    using assms by (intro rows_spec_Cons) simp
  ultimately show ?thesis
    by (simp add: axby_points_def mk points_spec_slice)
qed

section \<open>The enumeration at the limits of \<^verbatim>\<open>int\<close>, and the bound \<^verbatim>\<open>maxb\<close>\<close>

lemma next_b_overflow:
  "pt_a p = INT_MAX \<Longrightarrow> 0 \<le> pt_b p \<Longrightarrow> pt_b p \<le> pt_a p \<Longrightarrow>
   next_b p = Inl UndefinedBehaviour \<or>
   (\<exists>b'. pt_b p \<le> b' \<and> b' \<le> pt_a p \<and> gcd (pt_a p) b' = 1 \<and>
      next_b p = Inr (p\<lparr>pt_b := b'\<rparr>, False))"
proof (induction p rule: next_b.induct)
  case (1 p)
  have le: "\<not> pt_b p > pt_a p" using "1.prems" by simp
  have g: "(gcd_u (to_unsigned (pt_a p)) (to_unsigned (pt_b p)) > 1) = (gcd (pt_a p) (pt_b p) \<noteq> 1)"
    using "1.prems" by (intro gcd_u_int) (simp_all add: INT_MAX_def)
  show ?case
  proof (cases "gcd (pt_a p) (pt_b p) = 1")
    case True
    then have "next_b p = Inr (p\<lparr>pt_b := pt_b p\<rparr>, False)"
      using le g by (simp add: next_b.simps [of p])
    moreover have "pt_b p \<le> pt_b p" by simp
    ultimately show ?thesis
      using "1.prems"(3) True by (intro disjI2 exI [of _ "pt_b p"] conjI)
  next
    case False
    then have gt: "1 < gcd_u (to_unsigned (pt_a p)) (to_unsigned (pt_b p))"
      using g by simp
    show ?thesis
    proof (cases "pt_b p = INT_MAX")
      case True
      then show ?thesis
        using le gt by (simp add: next_b.simps [of p])
    next
      case nmax: False
      have step: "next_b p = next_b (p\<lparr>pt_b := pt_b p + 1\<rparr>)"
        using le gt nmax by (simp add: next_b.simps [of p])
      have "pt_b p + 1 \<le> pt_a p" using "1.prems"(3) "1.prems"(1) nmax by simp
      with "1.IH" [OF le gt nmax] "1.prems"(1,2)
      have "next_b (p\<lparr>pt_b := pt_b p + 1\<rparr>) = Inl UndefinedBehaviour \<or>
        (\<exists>b'. pt_b p + 1 \<le> b' \<and> b' \<le> pt_a p \<and> gcd (pt_a p) b' = 1 \<and>
           next_b (p\<lparr>pt_b := pt_b p + 1\<rparr>) = Inr (p\<lparr>pt_b := b'\<rparr>, False))"
        by simp
      then show ?thesis
      proof
        assume "next_b (p\<lparr>pt_b := pt_b p + 1\<rparr>) = Inl UndefinedBehaviour"
        then show ?thesis by (simp add: step)
      next
        assume "\<exists>b'. pt_b p + 1 \<le> b' \<and> b' \<le> pt_a p \<and> gcd (pt_a p) b' = 1 \<and>
           next_b (p\<lparr>pt_b := pt_b p + 1\<rparr>) = Inr (p\<lparr>pt_b := b'\<rparr>, False)"
        then obtain b' where b': "pt_b p + 1 \<le> b'" "b' \<le> pt_a p" "gcd (pt_a p) b' = 1"
          "next_b (p\<lparr>pt_b := pt_b p + 1\<rparr>) = Inr (p\<lparr>pt_b := b'\<rparr>, False)"
          by (elim exE conjE)
        from b'(1) have "pt_b p \<le> b'" by simp
        moreover from step b'(4) have "next_b p = Inr (p\<lparr>pt_b := b'\<rparr>, False)"
          by (rule trans)
        ultimately show ?thesis
          using b'(2,3) by (intro disjI2 exI [of _ b'] conjI)
      qed
    qed
  qed
qed

lemma axby_next_b_unfold:
  assumes "pt_a (axby_p s) = axby_a_dim s" "pt_y (axby_p s) = axby_maxp s"
    "pt_x (axby_p s) = axby_maxp s" "axby_maxp s < INT_MAX" "pt_b (axby_p s) \<noteq> INT_MAX"
  shows "axby_next s =
    (case next_b ((axby_p s)\<lparr>pt_y := 3, pt_x := 3, pt_b := pt_b (axby_p s) + 1\<rparr>) of
       Inl e \<Rightarrow> Inl e
     | Inr (p', d) \<Rightarrow> Inr (s\<lparr>axby_p := p'\<rparr>, d))"
proof -
  have y: "pt_y (axby_p s) \<noteq> INT_MAX" "pt_y (axby_p s) + 1 > axby_maxp s"
    using assms(2,4) by simp_all
  have x: "pt_x (axby_p s) \<noteq> INT_MAX" "pt_x (axby_p s) + 1 > axby_maxp s"
    using assms(3,4) by simp_all
  show ?thesis
    unfolding axby_next_def Let_def using assms(1,5) y x by simp
qed

lemma axby_next_y_max:
  assumes "pt_a (axby_p s) = axby_a_dim s" "pt_y (axby_p s) = INT_MAX"
  shows "axby_next s = Inl UndefinedBehaviour"
  unfolding axby_next_def Let_def using assms by simp

lemma axby_next_b_max:
  assumes "pt_a (axby_p s) = axby_a_dim s" "pt_y (axby_p s) = axby_maxp s"
    "pt_x (axby_p s) = axby_maxp s" "axby_maxp s < INT_MAX" "pt_b (axby_p s) = INT_MAX"
  shows "axby_next s = Inl UndefinedBehaviour"
proof -
  have y: "pt_y (axby_p s) \<noteq> INT_MAX" "pt_y (axby_p s) + 1 > axby_maxp s"
    using assms(2,4) by simp_all
  have x: "pt_x (axby_p s) \<noteq> INT_MAX" "pt_x (axby_p s) + 1 > axby_maxp s"
    using assms(3,4) by simp_all
  show ?thesis
    unfolding axby_next_def Let_def using assms(1,5) y x by simp
qed

lemma axby_next_overflow:
  assumes inv: "axby_inv s" and rng: "axby_maxp s \<le> INT_MAX" "pt_a (axby_p s) \<le> INT_MAX"
    and edge: "axby_maxp s = INT_MAX \<or> pt_a (axby_p s) = INT_MAX"
  shows "axby_next s = Inl UndefinedBehaviour \<or>
    (\<exists>s'. axby_next s = Inr (s', False) \<and> axby_inv s' \<and> axby_maxp s' = axby_maxp s \<and>
       pt_a (axby_p s') = pt_a (axby_p s))"
proof -
  have i: "pt_a (axby_p s) = axby_a_dim s" "1 \<le> pt_b (axby_p s)"
    "pt_b (axby_p s) \<le> pt_a (axby_p s)"
    "3 \<le> pt_x (axby_p s)" "pt_x (axby_p s) \<le> axby_maxp s"
    "2 \<le> pt_y (axby_p s)" "pt_y (axby_p s) \<le> axby_maxp s"
    using inv by (auto simp: axby_inv_def)
  show ?thesis
  proof (cases "pt_y (axby_p s) < axby_maxp s")
    case True
    let ?s' = "s\<lparr>axby_p := (axby_p s)\<lparr>pt_y := pt_y (axby_p s) + 1\<rparr>\<rparr>"
    have "axby_next s = Inr (?s', False)"
      using i(1) True rng(1) by (rule axby_next_y)
    moreover have "axby_inv ?s'"
      using i True unfolding axby_inv_def by simp
    ultimately show ?thesis
      by (intro disjI2 exI [of _ ?s']) simp
  next
    case False
    with i(7) have y: "pt_y (axby_p s) = axby_maxp s" by simp
    show ?thesis
    proof (cases "axby_maxp s = INT_MAX")
      case True
      with y have "pt_y (axby_p s) = INT_MAX" by simp
      with i(1) have "axby_next s = Inl UndefinedBehaviour" by (rule axby_next_y_max)
      then show ?thesis by (rule disjI1)
    next
      case False
      with rng(1) have mp: "axby_maxp s < INT_MAX" by simp
      from False edge have a: "pt_a (axby_p s) = INT_MAX" by blast
      show ?thesis
      proof (cases "pt_x (axby_p s) < axby_maxp s")
        case True
        let ?s' = "s\<lparr>axby_p := (axby_p s)\<lparr>pt_x := pt_x (axby_p s) + 1, pt_y := 3\<rparr>\<rparr>"
        have "axby_next s = Inr (?s', False)"
          using i(1) y True mp by (rule axby_next_x)
        moreover have "axby_inv ?s'"
          using i True unfolding axby_inv_def by simp
        ultimately show ?thesis
          by (intro disjI2 exI [of _ ?s']) simp
      next
        case False
        with i(5) have x: "pt_x (axby_p s) = axby_maxp s" by simp
        show ?thesis
        proof (cases "pt_b (axby_p s) = INT_MAX")
          case True
          with i(1) y x mp have "axby_next s = Inl UndefinedBehaviour"
            by (rule axby_next_b_max)
          then show ?thesis by (rule disjI1)
        next
          case False
          let ?q = "(axby_p s)\<lparr>pt_y := 3, pt_x := 3, pt_b := pt_b (axby_p s) + 1\<rparr>"
          have unf: "axby_next s =
              (case next_b ?q of Inl e \<Rightarrow> Inl e | Inr (p', d) \<Rightarrow> Inr (s\<lparr>axby_p := p'\<rparr>, d))"
            using i(1) y x mp False by (rule axby_next_b_unfold)
          have qa: "pt_a ?q = INT_MAX" using a by simp
          have q0: "0 \<le> pt_b ?q" using i(2) by simp
          have q1: "pt_b ?q \<le> pt_a ?q" using i(3) a False by simp
          from next_b_overflow [OF qa q0 q1]
          show ?thesis
          proof
            assume "next_b ?q = Inl UndefinedBehaviour"
            then have "axby_next s = Inl UndefinedBehaviour" by (simp add: unf)
            then show ?thesis by (rule disjI1)
          next
            assume "\<exists>b'. pt_b ?q \<le> b' \<and> b' \<le> pt_a ?q \<and> gcd (pt_a ?q) b' = 1 \<and>
               next_b ?q = Inr (?q\<lparr>pt_b := b'\<rparr>, False)"
            then obtain b' where b': "pt_b ?q \<le> b'" "b' \<le> pt_a ?q" "gcd (pt_a ?q) b' = 1"
              and nb: "next_b ?q = Inr (?q\<lparr>pt_b := b'\<rparr>, False)"
              by (elim exE conjE)
            let ?s' = "s\<lparr>axby_p := ?q\<lparr>pt_b := b'\<rparr>\<rparr>"
            have "axby_next s = Inr (?s', False)"
              by (simp add: unf nb)
            moreover have "axby_inv ?s'"
              using i b' mp unfolding axby_inv_def by simp
            ultimately show ?thesis
              by (intro disjI2 exI [of _ ?s']) simp
          qed
        qed
      qed
    qed
  qed
qed

lemma axby_run_overflow:
  "axby_inv s \<Longrightarrow> axby_maxp s \<le> INT_MAX \<Longrightarrow> pt_a (axby_p s) \<le> INT_MAX \<Longrightarrow>
   axby_maxp s = INT_MAX \<or> pt_a (axby_p s) = INT_MAX \<Longrightarrow>
   axby_run s = Inl UndefinedBehaviour"
proof (induction s rule: axby_run.induct)
  case (1 s)
  from axby_next_overflow [OF "1.prems"]
  show ?case
  proof
    assume "axby_next s = Inl UndefinedBehaviour"
    then show ?thesis by (simp add: axby_run.simps [of s])
  next
    assume "\<exists>s'. axby_next s = Inr (s', False) \<and> axby_inv s' \<and> axby_maxp s' = axby_maxp s \<and>
       pt_a (axby_p s') = pt_a (axby_p s)"
    then obtain s' where nx: "axby_next s = Inr (s', False)" and inv': "axby_inv s'"
      and same: "axby_maxp s' = axby_maxp s" "pt_a (axby_p s') = pt_a (axby_p s)"
      by (elim exE conjE)
    have "axby_run s' = Inl UndefinedBehaviour"
      using "1.IH" [OF nx refl _ inv'] "1.prems" same by simp
    then show ?thesis by (simp add: axby_run.simps [of s] nx)
  qed
qed

lemma axby_points_overflow:
  assumes "0 < maxb" "2 < maxp" "maxp \<le> INT_MAX" "0 < a" "a \<le> INT_MAX"
    and "maxp = INT_MAX \<or> a = INT_MAX"
  shows "axby_points maxb maxp a = Inl UndefinedBehaviour"
proof -
  let ?s = "\<lparr>axby_maxb = maxb, axby_maxp = maxp,
             axby_p = \<lparr>pt_a = a, pt_x = 3, pt_b = 1, pt_y = 2\<rparr>, axby_a_dim = a\<rparr>"
  have mk: "axby maxb maxp a = Inr ?s"
    using assms by (simp add: axby_def)
  have inv: "axby_inv ?s"
    using assms by (simp add: axby_inv_def)
  have "axby_run ?s = Inl UndefinedBehaviour"
    using assms by (intro axby_run_overflow [OF inv]) simp_all
  then show ?thesis
    by (simp add: axby_points_def mk)
qed

lemma axby_next_maxb:
  "axby_next (s\<lparr>axby_maxb := m\<rparr>) =
     (case axby_next s of Inl e \<Rightarrow> Inl e | Inr (s', d) \<Rightarrow> Inr (s'\<lparr>axby_maxb := m\<rparr>, d))"
  by (simp add: axby_next_def Let_def split: sum.splits prod.splits)

lemma axby_run_maxb: "axby_run (s\<lparr>axby_maxb := m\<rparr>) = axby_run s"
proof (induction s rule: axby_run.induct)
  case (1 s)
  show ?case
  proof (cases "axby_next s")
    case (Inl e)
    then show ?thesis
      by (simp add: axby_run.simps [of s] axby_run.simps [of "s\<lparr>axby_maxb := m\<rparr>"] axby_next_maxb)
  next
    case (Inr r)
    obtain s' d where r: "r = (s', d)" by (cases r)
    show ?thesis
    proof (cases d)
      case True
      then show ?thesis
        using Inr r
        by (simp add: axby_run.simps [of s] axby_run.simps [of "s\<lparr>axby_maxb := m\<rparr>"]
            axby_next_maxb)
    next
      case False
      have "axby_run (s'\<lparr>axby_maxb := m\<rparr>) = axby_run s'"
        using "1.IH" [OF Inr r [symmetric]] False by simp
      then show ?thesis
        using Inr r False
        by (simp add: axby_run.simps [of s] axby_run.simps [of "s\<lparr>axby_maxb := m\<rparr>"]
            axby_next_maxb split: sum.splits)
    qed
  qed
qed

lemma axby_points_maxb:
  "0 < maxb \<Longrightarrow> 0 < maxb' \<Longrightarrow> axby_points maxb maxp a = axby_points maxb' maxp a"
proof -
  assume pos: "0 < maxb" "0 < maxb'"
  let ?s = "\<lparr>axby_maxb = maxb, axby_maxp = maxp,
             axby_p = \<lparr>pt_a = a, pt_x = 3, pt_b = 1, pt_y = 2\<rparr>, axby_a_dim = a\<rparr>"
  have "axby_run (?s\<lparr>axby_maxb := maxb'\<rparr>) = axby_run ?s"
    by (rule axby_run_maxb)
  then show ?thesis
    using pos by (simp add: axby_points_def axby_def)
qed

section \<open>The search loop against the enumeration\<close>

lemma make_czs_built:
  "make_czs maxb maxp primes = Inr ts \<Longrightarrow> t \<in> set ts \<Longrightarrow>
   \<exists>m\<in>set primes. cz (to_unsigned maxb) (to_unsigned maxp) m = Inr t"
proof (induction primes arbitrary: ts)
  case Nil
  then show ?case by simp
next
  case (Cons m ms)
  from Cons.prems(1) obtain t0 ts0 where
    t0: "cz (to_unsigned maxb) (to_unsigned maxp) m = Inr t0"
    and ts0: "make_czs maxb maxp ms = Inr ts0" and ts: "ts = t0 # ts0"
    by (auto split: sum.splits)
  show ?case
  proof (cases "t = t0")
    case True
    with t0 show ?thesis by simp
  next
    case False
    with Cons.prems(2) ts have "t \<in> set ts0" by simp
    from Cons.IH [OF ts0 this] show ?thesis by simp
  qed
qed

lemma u64_id: "n < 18446744073709551616 \<Longrightarrow> u64 n = n"
  by (simp add: u64_def)

lemma u32_id: "n < 4294967296 \<Longrightarrow> u32 n = n"
  by (simp add: u32_def)

lemma sum_mod_exact:
  assumes "0 < m" "m < 4294967296" "g1 < m" "g2 < m"
  shows "u32 (u64 (u64 g1 + u64 g2) mod u64 m) = (g1 + g2) mod m"
proof -
  have "u64 g1 = g1" "u64 g2 = g2" "u64 m = m"
    using assms by (simp_all add: u64_id)
  moreover have "u64 (g1 + g2) = g1 + g2"
    using assms by (simp add: u64_id)
  moreover have "(g1 + g2) mod m < 4294967296"
    using assms(1,2) by (meson less_trans mod_less_divisor)
  ultimately show ?thesis
    by (simp add: u32_id)
qed

lemma sieve_arg_built:
  assumes "cz maxb maxp m = Inr t" "m < 4294967296"
    and "1 \<le> pt_a p" "pt_a p \<le> int maxb" "3 \<le> pt_x p" "pt_x p \<le> int maxp"
    and "1 \<le> pt_b p" "pt_b p \<le> int maxb" "3 \<le> pt_y p" "pt_y p \<le> int maxp"
  shows "sieve_arg t p =
    Inr ((modpow (nat (pt_a p)) (nat (pt_x p)) m + modpow (nat (pt_b p)) (nat (pt_y p)) m) mod m)"
proof -
  have m: "0 < m" "cz_mod t = m"
    using cz_built(5,6) [OF assms(1)] by simp_all
  have g1: "get t (pt_a p) (pt_x p) = Inr (modpow (nat (pt_a p)) (nat (pt_x p)) m)"
    using assms(1,3-6) by (rule get_built)
  have g2: "get t (pt_b p) (pt_y p) = Inr (modpow (nat (pt_b p)) (nat (pt_y p)) m)"
    using assms(1,7-10) by (rule get_built)
  have lt: "modpow c z m < m" for c z
    using m(1) by (simp add: modpow_def)
  have "u64 m \<noteq> 0"
    using m(1) assms(2) by (simp add: u64_id)
  then show ?thesis
    using sum_mod_exact [OF m(1) assms(2) lt lt]
    by (simp add: sieve_arg_def g1 g2 m(2) Let_def)
qed

lemma sieve_ok_built:
  assumes "cz maxb maxp m = Inr t"
    and "1 \<le> pt_a p" "pt_a p \<le> int maxb" "3 \<le> pt_x p" "pt_x p \<le> int maxp"
    and "1 \<le> pt_b p" "pt_b p \<le> int maxb" "3 \<le> pt_y p" "pt_y p \<le> int maxp"
  shows "sieve_ok t p =
    exists t ((modpow (nat (pt_a p)) (nat (pt_x p)) m + modpow (nat (pt_b p)) (nat (pt_y p)) m) mod m)"
proof -
  have g1: "get t (pt_a p) (pt_x p) = Inr (modpow (nat (pt_a p)) (nat (pt_x p)) m)"
    using assms(1,2-5) by (rule get_built)
  have g2: "get t (pt_b p) (pt_y p) = Inr (modpow (nat (pt_b p)) (nat (pt_y p)) m)"
    using assms(1,6-9) by (rule get_built)
  show ?thesis
    by (simp add: sieve_ok_def g1 g2 cz_built(6) [OF assms(1)])
qed

lemma found_all_spec:
  "(\<And>t. t \<in> set czs \<Longrightarrow> \<exists>v. sieve_arg t p = Inr v \<and> exists t v = sieve_ok t p) \<Longrightarrow>
   found_all czs p = Inr (list_all (\<lambda>t. sieve_ok t p) czs)"
proof (induction czs)
  case Nil
  then show ?case by simp
next
  case (Cons t ts)
  obtain v where v: "sieve_arg t p = Inr v" "exists t v = sieve_ok t p"
    using Cons.prems [of t] by auto
  have "found_all ts p = Inr (list_all (\<lambda>t. sieve_ok t p) ts)"
    using Cons.prems by (intro Cons.IH) simp
  then show ?case
    using v by simp
qed

lemma next_b_range:
  "next_b q = Inr (p', False) \<Longrightarrow>
   pt_a p' = pt_a q \<and> pt_x p' = pt_x q \<and> pt_y p' = pt_y q \<and>
   pt_b q \<le> pt_b p' \<and> pt_b p' \<le> pt_a q"
proof (induction q rule: next_b.induct)
  case (1 q)
  then show ?case
    by (subst (asm) (2) next_b.simps) (auto split: if_splits)
qed

lemma axby_next_inv:
  assumes "axby_inv s" "axby_next s = Inr (s', False)"
  shows "axby_inv s' \<and> 3 \<le> pt_y (axby_p s') \<and> pt_a (axby_p s') = pt_a (axby_p s) \<and>
    axby_maxp s' = axby_maxp s"
  using assms
  by (auto simp: axby_inv_def axby_next_def Let_def split: if_splits sum.splits prod.splits
      dest!: next_b_range)


lemma axby_run_range:
  "axby_inv s \<Longrightarrow> axby_run s = Inr ps \<Longrightarrow> p \<in> set ps \<Longrightarrow>
   pt_a p = pt_a (axby_p s) \<and> 1 \<le> pt_b p \<and> pt_b p \<le> pt_a p \<and>
   3 \<le> pt_x p \<and> pt_x p \<le> axby_maxp s \<and> 3 \<le> pt_y p \<and> pt_y p \<le> axby_maxp s"
proof (induction s arbitrary: ps rule: axby_run.induct)
  case (1 s)
  from "1.prems"(2) obtain s' d where nx: "axby_next s = Inr (s', d)"
    by (subst (asm) axby_run.simps) (auto split: sum.splits)
  show ?case
  proof (cases d)
    case True
    with "1.prems"(2,3) nx show ?thesis
      by (subst (asm) axby_run.simps) simp
  next
    case False
    with "1.prems"(2) nx obtain ps' where
      run': "axby_run s' = Inr ps'" and ps: "ps = axby_p s' # ps'"
      by (subst (asm) axby_run.simps) (auto split: sum.splits)
    from nx False have nx': "axby_next s = Inr (s', False)" by simp
    note inv' = axby_next_inv [OF "1.prems"(1) nx']
    show ?thesis
    proof (cases "p = axby_p s'")
      case True
      with inv' show ?thesis by (simp add: axby_inv_def)
    next
      case False
      with "1.prems"(3) ps have "p \<in> set ps'" by simp
      from "1.IH" [OF nx' refl _ conjunct1 [OF inv'] run' this] inv'
      show ?thesis by simp
    qed
  qed
qed

lemma axby_points_range:
  assumes "axby_points maxb maxp a = Inr ps"
  shows "0 < maxb" "2 < maxp" "0 < a"
    and "\<And>p. p \<in> set ps \<Longrightarrow>
      pt_a p = a \<and> 1 \<le> pt_b p \<and> pt_b p \<le> a \<and>
      3 \<le> pt_x p \<and> pt_x p \<le> maxp \<and> 3 \<le> pt_y p \<and> pt_y p \<le> maxp"
proof -
  let ?s = "\<lparr>axby_maxb = maxb, axby_maxp = maxp,
             axby_p = \<lparr>pt_a = a, pt_x = 3, pt_b = 1, pt_y = 2\<rparr>, axby_a_dim = a\<rparr>"
  from assms show pos: "0 < maxb" "2 < maxp" "0 < a"
    by (auto simp: axby_points_def axby_def split: if_splits)
  then have mk: "axby maxb maxp a = Inr ?s"
    by (simp add: axby_def)
  have inv: "axby_inv ?s"
    using pos by (simp add: axby_inv_def)
  have run: "axby_run ?s = Inr ps"
    using assms by (simp add: axby_points_def mk)
  show "pt_a p = a \<and> 1 \<le> pt_b p \<and> pt_b p \<le> a \<and>
      3 \<le> pt_x p \<and> pt_x p \<le> maxp \<and> 3 \<le> pt_y p \<and> pt_y p \<le> maxp"
    if "p \<in> set ps" for p
    using axby_run_range [OF inv run that] by simp
qed

lemma work_loop_run:
  "axby_run s = Inr ps \<Longrightarrow>
   (\<And>p. p \<in> set (axby_p s # ps) \<Longrightarrow> found_all czs p = Inr (P p)) \<Longrightarrow>
   work_loop czs s rs = Inr (rs @ filter P (axby_p s # ps))"
proof (induction s arbitrary: ps rs rule: axby_run.induct)
  case (1 s)
  have f: "found_all czs (axby_p s) = Inr (P (axby_p s))"
    by (rule "1.prems"(2)) simp
  from "1.prems"(1) obtain s' d where nx: "axby_next s = Inr (s', d)"
    by (subst (asm) axby_run.simps) (auto split: sum.splits)
  show ?case
  proof (cases d)
    case True
    with "1.prems"(1) nx have "ps = []"
      by (subst (asm) axby_run.simps) simp
    then show ?thesis
      using f nx True by (subst work_loop.simps) simp
  next
    case False
    with "1.prems"(1) nx obtain ps' where
      run': "axby_run s' = Inr ps'" and ps: "ps = axby_p s' # ps'"
      by (subst (asm) axby_run.simps) (auto split: sum.splits)
    from nx False have nx': "axby_next s = Inr (s', False)" by simp
    have "work_loop czs s' (if P (axby_p s) then rs @ [axby_p s] else rs) =
      Inr ((if P (axby_p s) then rs @ [axby_p s] else rs) @ filter P (axby_p s' # ps'))"
      using "1.prems"(2) ps by (intro "1.IH" [OF nx' refl _ run']) simp_all
    then show ?thesis
      using f nx' ps by (subst work_loop.simps) simp
  qed
qed

lemma work_loop_fail:
  "axby_run s = Inl e \<Longrightarrow> work_loop [] s rs = Inl e"
proof (induction s arbitrary: rs rule: axby_run.induct)
  case (1 s)
  show ?case
  proof (cases "axby_next s")
    case (Inl e')
    with "1.prems" have "e' = e"
      by (subst (asm) axby_run.simps) simp
    with Inl show ?thesis
      by (subst work_loop.simps) simp
  next
    case (Inr r)
    obtain s' d where r: "r = (s', d)" by (cases r)
    from "1.prems" Inr r have d: "\<not> d"
      by (subst (asm) axby_run.simps) (auto split: if_splits)
    with "1.prems" Inr r have run': "axby_run s' = Inl e"
      by (subst (asm) axby_run.simps) (auto split: sum.splits)
    have "work_loop [] s' (rs @ [axby_p s]) = Inl e"
      using Inr r d run' by (intro "1.IH") simp_all
    then show ?thesis
      using Inr r d by (subst work_loop.simps) simp
  qed
qed

lemma do_work_run:
  assumes "axby_points (work_maxb w) (work_maxp w) a = Inr pts"
    and "\<And>p. p \<in> set pts \<Longrightarrow> found_all (work_czs w) p = Inr (P p)"
  shows "do_work w a rs = Inr (rs @ filter P pts)"
proof -
  from assms(1) obtain s where mk: "axby (work_maxb w) (work_maxp w) a = Inr s"
    and run: "axby_run s = Inr pts"
    by (auto simp: axby_points_def split: sum.splits)
  from run obtain s' d where nx: "axby_next s = Inr (s', d)"
    by (subst (asm) axby_run.simps) (auto split: sum.splits)
  show ?thesis
  proof (cases d)
    case True
    with run nx have "pts = []"
      by (subst (asm) axby_run.simps) simp
    then show ?thesis
      using mk nx True by (simp add: do_work_def)
  next
    case False
    with run nx obtain ps' where
      run': "axby_run s' = Inr ps'" and ps: "pts = axby_p s' # ps'"
      by (subst (asm) axby_run.simps) (auto split: sum.splits)
    have "work_loop (work_czs w) s' rs = Inr (rs @ filter P (axby_p s' # ps'))"
      using assms(2) ps by (intro work_loop_run [OF run']) simp
    then show ?thesis
      using mk nx False ps by (simp add: do_work_def)
  qed
qed

lemma do_work_fail:
  assumes "axby_points (work_maxb w) (work_maxp w) a = Inl e" "work_czs w = []"
  shows "do_work w a rs = Inl e"
proof (cases "axby (work_maxb w) (work_maxp w) a")
  case (Inl e')
  with assms(1) show ?thesis
    by (simp add: axby_points_def do_work_def)
next
  case (Inr s)
  with assms(1) have run: "axby_run s = Inl e"
    by (simp add: axby_points_def)
  show ?thesis
  proof (cases "axby_next s")
    case (Inl e')
    with run have "e' = e"
      by (subst (asm) axby_run.simps) simp
    with Inl Inr show ?thesis
      by (simp add: do_work_def)
  next
    case nx: (Inr r)
    obtain s' d where r: "r = (s', d)" by (cases r)
    from run nx r have d: "\<not> d"
      by (subst (asm) axby_run.simps) (auto split: if_splits)
    with run nx r have "axby_run s' = Inl e"
      by (subst (asm) axby_run.simps) (auto split: sum.splits)
    then have "work_loop [] s' rs = Inl e"
      by (rule work_loop_fail)
    then show ?thesis
      using Inr nx r d assms(2) by (simp add: do_work_def)
  qed
qed

lemma work_built:
  assumes "work maxb maxp primes = Inr w"
  shows "work_maxb w = maxb" "work_maxp w = maxp"
    and "\<And>t. t \<in> set (work_czs w) \<Longrightarrow>
      \<exists>m\<in>set primes. cz (to_unsigned maxb) (to_unsigned maxp) m = Inr t"
proof -
  from assms obtain ts where ts: "make_czs maxb maxp primes = Inr ts"
    and w: "w = \<lparr>work_maxb = maxb, work_maxp = maxp, work_czs = ts\<rparr>"
    by (auto simp: work_def split: sum.splits)
  show "work_maxb w = maxb" "work_maxp w = maxp"
    by (simp_all add: w)
  show "\<exists>m\<in>set primes. cz (to_unsigned maxb) (to_unsigned maxp) m = Inr t"
    if "t \<in> set (work_czs w)" for t
    using make_czs_built [OF ts, of t] that by (simp add: w)
qed

lemma do_work_built:
  assumes w: "work maxb maxp primes = Inr w"
    and u32: "\<And>m. m \<in> set primes \<Longrightarrow> m < 4294967296"
    and int: "maxb \<le> INT_MAX" "maxp \<le> INT_MAX"
    and a: "a \<le> maxb"
    and pts: "axby_points maxb maxp a = Inr pts"
  shows "do_work w a rs = Inr (rs @ search_spec (work_czs w) pts)"
proof -
  note r = axby_points_range [OF pts]
  have ub: "to_unsigned maxb = nat maxb" and up: "to_unsigned maxp = nat maxp"
    using r(1,2) int by (simp_all add: to_unsigned_nat)
  have chk: "found_all (work_czs w) p = Inr (list_all (\<lambda>t. sieve_ok t p) (work_czs w))"
    if p: "p \<in> set pts" for p
  proof (rule found_all_spec)
    fix t
    assume "t \<in> set (work_czs w)"
    then obtain m where m: "m \<in> set primes" and t: "cz (nat maxb) (nat maxp) m = Inr t"
      using work_built(3) [OF w] ub up by auto
    have rng: "1 \<le> pt_a p" "pt_a p \<le> int (nat maxb)" "3 \<le> pt_x p" "pt_x p \<le> int (nat maxp)"
      "1 \<le> pt_b p" "pt_b p \<le> int (nat maxb)" "3 \<le> pt_y p" "pt_y p \<le> int (nat maxp)"
      using r(4) [OF p] r(3) a by simp_all
    have "sieve_arg t p =
      Inr ((modpow (nat (pt_a p)) (nat (pt_x p)) m + modpow (nat (pt_b p)) (nat (pt_y p)) m) mod m)"
      using t u32 [OF m] rng by (rule sieve_arg_built)
    moreover have "sieve_ok t p =
      exists t ((modpow (nat (pt_a p)) (nat (pt_x p)) m + modpow (nat (pt_b p)) (nat (pt_y p)) m) mod m)"
      using t rng by (rule sieve_ok_built)
    ultimately show "\<exists>v. sieve_arg t p = Inr v \<and> exists t v = sieve_ok t p"
      by simp
  qed
  have "do_work w a rs = Inr (rs @ filter (\<lambda>p. list_all (\<lambda>t. sieve_ok t p) (work_czs w)) pts)"
  proof (rule do_work_run)
    show "axby_points (work_maxb w) (work_maxp w) a = Inr pts"
      using pts by (simp add: work_built(1,2) [OF w])
  qed (rule chk)
  then show ?thesis
    by (simp add: search_spec_def)
qed

lemma do_work_no_tables:
  "do_work \<lparr>work_maxb = maxb, work_maxp = maxp, work_czs = []\<rparr> a [] = axby_points maxb maxp a"
proof (cases "axby_points maxb maxp a")
  case (Inl e)
  then show ?thesis
    by (simp add: do_work_fail)
next
  case (Inr pts)
  have "do_work \<lparr>work_maxb = maxb, work_maxp = maxp, work_czs = []\<rparr> a [] =
      Inr ([] @ filter (\<lambda>p. True) pts)"
    by (rule do_work_run) (simp_all add: Inr)
  then show ?thesis
    by (simp add: Inr)
qed

lemma work_loop_acc:
  "work_loop czs s rs =
     (case work_loop czs s [] of Inl e \<Rightarrow> Inl e | Inr found \<Rightarrow> Inr (rs @ found))"
proof (induction s arbitrary: rs rule: axby_run.induct)
  case (1 s)
  show ?case
  proof (cases "found_all czs (axby_p s)")
    case (Inl e)
    then show ?thesis
      by (simp add: work_loop.simps [of czs s])
  next
    case f: (Inr found)
    show ?thesis
    proof (cases "axby_next s")
      case (Inl e)
      then show ?thesis
        using f by (simp add: work_loop.simps [of czs s])
    next
      case (Inr r)
      obtain s' d where r: "r = (s', d)" by (cases r)
      show ?thesis
      proof (cases d)
        case True
        then show ?thesis
          using f Inr r by (simp add: work_loop.simps [of czs s])
      next
        case False
        note ih = "1.IH" [OF Inr r [symmetric] False]
        show ?thesis
          using f Inr r False ih [of "if found then rs @ [axby_p s] else rs"]
            ih [of "if found then [axby_p s] else []"]
          by (cases found) (simp_all add: work_loop.simps [of czs s] split: sum.splits)
      qed
    qed
  qed
qed

lemma do_work_acc:
  "do_work w a rs =
     (case do_work w a [] of Inl e \<Rightarrow> Inl e | Inr found \<Rightarrow> Inr (rs @ found))"
  using work_loop_acc [of "work_czs w" _ rs]
  by (simp add: do_work_def split: sum.splits prod.splits)

lemma copy_results_spec:
  "i \<le> length results \<Longrightarrow> length results \<le> length pts \<Longrightarrow>
   copy_results i results pts =
     Inr (take i pts @ drop i results @ drop (length results) pts)"
proof (induction i results pts rule: copy_results.induct)
  case (1 i results pts)
  show ?case
  proof (cases "i < length results")
    case True
    then have ip: "i < length pts" using "1.prems" by simp
    have "copy_results (i + 1) results (pts[i := results ! i]) =
      Inr (take (i + 1) (pts[i := results ! i]) @ drop (i + 1) results
           @ drop (length results) (pts[i := results ! i]))"
      using True ip "1.prems" by (intro "1.IH") simp_all
    moreover have "take (i + 1) (pts[i := results ! i]) = take i pts @ [results ! i]"
      using ip by (simp add: take_Suc_conv_app_nth)
    moreover have "results ! i # drop (i + 1) results = drop i results"
      using True by (simp add: Cons_nth_drop_Suc)
    moreover have "drop (length results) (pts[i := results ! i]) = drop (length results) pts"
      using True by simp
    ultimately show ?thesis
      using True ip by (subst copy_results.simps) simp
  next
    case False
    with "1.prems" have "i = length results" by simp
    then show ?thesis
      using "1.prems" by (subst copy_results.simps) simp
  qed
qed

lemma axby_constructed:
  assumes "axby maxb maxp a = Inr s"
  shows "0 < maxb" "2 < maxp" "0 < a" "axby_points maxb maxp a = axby_run s"
  using assms by (auto simp: axby_def axby_points_def split: if_splits)

section \<open>The points yielded, whether or not done is reached\<close>

text \<open>
  When the calls of \<^verbatim>\<open>next\<close> end with done, \<open>axby_yields\<close> is the list of \<open>axby_run\<close>. It is
  also defined when they end in a failure, and then holds the points returned before it.
\<close>

lemma axby_run_yields: "axby_run s = Inr ps \<Longrightarrow> axby_yields s = ps"
proof (induction s arbitrary: ps rule: axby_run.induct)
  case (1 s)
  from "1.prems" obtain s' d where nx: "axby_next s = Inr (s', d)"
    by (subst (asm) axby_run.simps) (auto split: sum.splits)
  show ?case
  proof (cases d)
    case True
    with "1.prems" nx have "ps = []"
      by (subst (asm) axby_run.simps) simp
    then show ?thesis
      using nx True by (simp add: axby_yields.simps [of s])
  next
    case False
    with "1.prems" nx obtain ps' where
      run': "axby_run s' = Inr ps'" and ps: "ps = axby_p s' # ps'"
      by (subst (asm) axby_run.simps) (auto split: sum.splits)
    from nx False have nx': "axby_next s = Inr (s', False)" by simp
    have "axby_yields s' = ps'"
      by (rule "1.IH" [OF nx' refl _ run']) simp
    then show ?thesis
      using nx' ps by (simp add: axby_yields.simps [of s])
  qed
qed

lemma next_b_spec_le:
  "0 < pt_a p \<Longrightarrow> pt_a p \<le> INT_MAX \<Longrightarrow> 0 \<le> pt_b p \<Longrightarrow>
   (filter (\<lambda>b. gcd (pt_a p) b = 1) [pt_b p..pt_a p] = [] \<longrightarrow>
      (\<forall>p'. next_b p \<noteq> Inr (p', False))) \<and>
   (\<forall>b' bs. filter (\<lambda>b. gcd (pt_a p) b = 1) [pt_b p..pt_a p] = b' # bs \<longrightarrow>
      next_b p = Inr (p\<lparr>pt_b := b'\<rparr>, False))"
proof (induction p rule: next_b.induct)
  case (1 p)
  show ?case
  proof (cases "pt_b p > pt_a p")
    case True
    then show ?thesis
      using "1.prems" by (simp add: next_b.simps [of p])
  next
    case le: False
    then have rec: "[pt_b p..pt_a p] = pt_b p # [pt_b p + 1..pt_a p]"
      by (simp add: upto_rec1)
    have g: "(gcd_u (to_unsigned (pt_a p)) (to_unsigned (pt_b p)) > 1) = (gcd (pt_a p) (pt_b p) \<noteq> 1)"
      using "1.prems" le by (intro gcd_u_int) simp_all
    show ?thesis
    proof (cases "gcd (pt_a p) (pt_b p) = 1")
      case True
      then show ?thesis
        using le g rec by (simp add: next_b.simps [of p])
    next
      case False
      then have gt: "1 < gcd_u (to_unsigned (pt_a p)) (to_unsigned (pt_b p))"
        using g by simp
      show ?thesis
      proof (cases "pt_b p = INT_MAX")
        case True
        with le "1.prems"(2) have "pt_b p = pt_a p" by simp
        then have "filter (\<lambda>b. gcd (pt_a p) b = 1) [pt_b p..pt_a p] = []"
          using False by simp
        moreover have "next_b p = Inl UndefinedBehaviour"
          using le gt True by (simp add: next_b.simps [of p])
        ultimately show ?thesis by simp
      next
        case nmax: False
        have step: "next_b p = next_b (p\<lparr>pt_b := pt_b p + 1\<rparr>)"
          using le gt nmax by (simp add: next_b.simps [of p])
        from "1.IH" [OF le gt nmax] "1.prems"
        show ?thesis
          using False rec step by simp
      qed
    qed
  qed
qed

lemma axby_yields_Nil:
  "(\<And>s'. axby_next s \<noteq> Inr (s', False)) \<Longrightarrow> axby_yields s = []"
  by (cases "axby_next s") (auto simp: axby_yields.simps [of s])

lemma axby_yields_spec:
  "axby_inv s \<Longrightarrow> axby_maxp s < INT_MAX \<Longrightarrow> pt_a (axby_p s) \<le> INT_MAX \<Longrightarrow>
   axby_yields s =
     row_spec (axby_maxp s) (pt_a (axby_p s)) (pt_b (axby_p s)) (pt_x (axby_p s))
       (pt_y (axby_p s) + 1)
     @ rows_spec (axby_maxp s) (pt_a (axby_p s)) (pt_b (axby_p s)) (pt_x (axby_p s) + 1)
     @ slice_spec (axby_maxp s) (pt_a (axby_p s)) (pt_b (axby_p s) + 1)"
proof (induction s rule: axby_yields.induct)
  case (1 s)
  define p where "p = axby_p s"
  define maxp where "maxp = axby_maxp s"
  have inv: "pt_a p = axby_a_dim s" "1 \<le> pt_b p" "pt_b p \<le> pt_a p"
    "3 \<le> pt_x p" "pt_x p \<le> maxp" "2 \<le> pt_y p" "pt_y p \<le> maxp"
    using "1.prems"(1) by (auto simp: axby_inv_def p_def maxp_def)
  have bnd: "maxp < INT_MAX" "pt_a p \<le> INT_MAX"
    using "1.prems"(2,3) by (simp_all add: p_def maxp_def)
  consider (y) "pt_y p < maxp" | (x) "pt_y p = maxp" "pt_x p < maxp"
    | (b) "pt_y p = maxp" "pt_x p = maxp"
    using inv by linarith
  then show ?case
  proof cases
    case y
    let ?s' = "s\<lparr>axby_p := p\<lparr>pt_y := pt_y p + 1\<rparr>\<rparr>"
    have nx: "axby_next s = Inr (?s', False)"
      using axby_next_y [of s] inv y bnd by (simp add: p_def maxp_def)
    have inv': "axby_inv ?s'"
      using inv y by (simp add: axby_inv_def maxp_def)
    have "axby_yields ?s' =
      row_spec maxp (pt_a p) (pt_b p) (pt_x p) (pt_y p + 1 + 1)
      @ rows_spec maxp (pt_a p) (pt_b p) (pt_x p + 1)
      @ slice_spec maxp (pt_a p) (pt_b p + 1)"
      using "1.IH" [OF nx refl _ inv'] bnd by (simp add: maxp_def)
    moreover have "row_spec maxp (pt_a p) (pt_b p) (pt_x p) (pt_y p + 1) =
        axby_p ?s' # row_spec maxp (pt_a p) (pt_b p) (pt_x p) (pt_y p + 1 + 1)"
      using y by (subst row_spec_Cons) simp_all
    ultimately show ?thesis
      by (subst axby_yields.simps) (simp add: nx flip: p_def maxp_def)
  next
    case x
    let ?s' = "s\<lparr>axby_p := p\<lparr>pt_x := pt_x p + 1, pt_y := 3\<rparr>\<rparr>"
    have nx: "axby_next s = Inr (?s', False)"
      using axby_next_x [of s] inv x bnd by (simp add: p_def maxp_def)
    have inv': "axby_inv ?s'"
      using inv x by (simp add: axby_inv_def maxp_def)
    have "axby_yields ?s' =
      row_spec maxp (pt_a p) (pt_b p) (pt_x p + 1) (3 + 1)
      @ rows_spec maxp (pt_a p) (pt_b p) (pt_x p + 1 + 1)
      @ slice_spec maxp (pt_a p) (pt_b p + 1)"
      using "1.IH" [OF nx refl _ inv'] bnd by (simp add: maxp_def)
    moreover have "row_spec maxp (pt_a p) (pt_b p) (pt_x p) (pt_y p + 1) = []"
      using x by (simp add: row_spec_Nil)
    moreover have "rows_spec maxp (pt_a p) (pt_b p) (pt_x p + 1) =
        (axby_p ?s' # row_spec maxp (pt_a p) (pt_b p) (pt_x p + 1) (3 + 1))
        @ rows_spec maxp (pt_a p) (pt_b p) (pt_x p + 1 + 1)"
      using x inv by (subst rows_spec_Cons, simp, subst row_spec_Cons) simp_all
    ultimately show ?thesis
      by (subst axby_yields.simps) (simp add: nx flip: p_def maxp_def)
  next
    case b
    have r0: "row_spec maxp (pt_a p) (pt_b p) (pt_x p) (pt_y p + 1) = []"
      using b by (simp add: row_spec_Nil)
    have r1: "rows_spec maxp (pt_a p) (pt_b p) (pt_x p + 1) = []"
      using b by (simp add: rows_spec_Nil)
    show ?thesis
    proof (cases "pt_b p = INT_MAX")
      case True
      have "axby_next s = Inl UndefinedBehaviour"
        using axby_next_b_max [of s] inv b bnd True by (simp add: p_def maxp_def)
      then have "axby_yields s = []"
        by (simp add: axby_yields.simps [of s])
      moreover have "slice_spec maxp (pt_a p) (pt_b p + 1) = []"
        using True bnd inv by (simp add: slice_spec_def)
      ultimately show ?thesis
        using r0 r1 by (simp flip: p_def maxp_def)
    next
      case nmax: False
      let ?q = "p\<lparr>pt_y := 3, pt_x := 3, pt_b := pt_b p + 1\<rparr>"
      have unf: "axby_next s =
          (case next_b ?q of Inl e \<Rightarrow> Inl e | Inr (p', d) \<Rightarrow> Inr (s\<lparr>axby_p := p'\<rparr>, d))"
        using axby_next_b_unfold [of s] inv b bnd nmax by (simp add: p_def maxp_def)
      note nb = next_b_spec_le [of ?q]
      show ?thesis
      proof (cases "filter (\<lambda>b. gcd (pt_a p) b = 1) [pt_b p + 1..pt_a p]")
        case Nil
        have "next_b ?q \<noteq> Inr (p', False)" for p'
          using nb inv bnd Nil by simp
        then have "axby_next s \<noteq> Inr (s', False)" for s'
          unfolding unf by (auto split: sum.splits)
        then have "axby_yields s = []"
          by (rule axby_yields_Nil)
        then show ?thesis
          using r0 r1 slice_spec_Nil [OF Nil, of maxp] by (simp flip: p_def maxp_def)
      next
        case (Cons b' bs)
        let ?s' = "s\<lparr>axby_p := p\<lparr>pt_y := 3, pt_x := 3, pt_b := b'\<rparr>\<rparr>"
        have "next_b ?q = Inr (?q\<lparr>pt_b := b'\<rparr>, False)"
          using nb inv bnd Cons by simp
        then have nx: "axby_next s = Inr (?s', False)"
          by (simp add: unf)
        have b': "pt_b p + 1 \<le> b'" "b' \<le> pt_a p" "gcd (pt_a p) b' = 1"
          using filter_upto_Cons [OF Cons] by simp_all
        have inv': "axby_inv ?s'"
          using inv b b' by (simp add: axby_inv_def maxp_def)
        have "axby_yields ?s' =
          row_spec maxp (pt_a p) b' 3 (3 + 1)
          @ rows_spec maxp (pt_a p) b' (3 + 1)
          @ slice_spec maxp (pt_a p) (b' + 1)"
          using "1.IH" [OF nx refl _ inv'] bnd by (simp add: maxp_def)
        moreover have "slice_spec maxp (pt_a p) (pt_b p + 1) =
            (axby_p ?s' # row_spec maxp (pt_a p) b' 3 (3 + 1))
            @ rows_spec maxp (pt_a p) b' (3 + 1)
            @ slice_spec maxp (pt_a p) (b' + 1)"
          using inv b
          by (subst slice_spec_Cons [OF Cons], subst rows_spec_Cons, simp, subst row_spec_Cons)
            simp_all
        ultimately show ?thesis
          using r0 r1 by (subst axby_yields.simps) (simp add: nx flip: p_def maxp_def)
      qed
    qed
  qed
qed

lemma axby_yields_Cons:
  "axby_next s = Inr (s', False) \<Longrightarrow> axby_yields s = axby_p s' # axby_yields s'"
  by (simp add: axby_yields.simps [of s])

lemma axby_yields_cases:
  assumes "p \<in> set (axby_yields s)"
  obtains s' where "axby_next s = Inr (s', False)" "p = axby_p s' \<or> p \<in> set (axby_yields s')"
proof (cases "axby_next s")
  case (Inl e)
  with assms show ?thesis by (simp add: axby_yields.simps [of s])
next
  case (Inr r)
  obtain s' d where r: "r = (s', d)" by (cases r)
  show ?thesis
  proof (cases d)
    case True
    with assms Inr r show ?thesis by (simp add: axby_yields.simps [of s])
  next
    case False
    with Inr r have nx: "axby_next s = Inr (s', False)" by simp
    with assms have "p = axby_p s' \<or> p \<in> set (axby_yields s')"
      by (simp add: axby_yields_Cons [OF nx])
    with nx show ?thesis by (rule that)
  qed
qed

lemma axby_yields_range:
  "axby_inv s \<Longrightarrow> p \<in> set (axby_yields s) \<Longrightarrow>
   pt_a p = pt_a (axby_p s) \<and> 1 \<le> pt_b p \<and> pt_b p \<le> pt_a p \<and>
   3 \<le> pt_x p \<and> pt_x p \<le> axby_maxp s \<and> 3 \<le> pt_y p \<and> pt_y p \<le> axby_maxp s"
proof (induction s rule: axby_yields.induct)
  case (1 s)
  from "1.prems"(2) obtain s' where nx: "axby_next s = Inr (s', False)"
    and p: "p = axby_p s' \<or> p \<in> set (axby_yields s')"
    by (rule axby_yields_cases)
  note inv' = axby_next_inv [OF "1.prems"(1) nx]
  show ?case
  proof (cases "p = axby_p s'")
    case True
    with inv' show ?thesis by (simp add: axby_inv_def)
  next
    case False
    with p have "p \<in> set (axby_yields s')" by simp
    from "1.IH" [OF nx refl _ conjunct1 [OF inv'] this] inv'
    show ?thesis by simp
  qed
qed

lemma axby_yields_maxb: "axby_yields (s\<lparr>axby_maxb := m\<rparr>) = axby_yields s"
proof (induction s rule: axby_yields.induct)
  case (1 s)
  show ?case
  proof (cases "axby_next s")
    case (Inl e)
    then show ?thesis
      by (simp add: axby_yields.simps [of s] axby_yields.simps [of "s\<lparr>axby_maxb := m\<rparr>"]
          axby_next_maxb)
  next
    case (Inr r)
    obtain s' d where r: "r = (s', d)" by (cases r)
    show ?thesis
    proof (cases d)
      case True
      then show ?thesis
        using Inr r
        by (simp add: axby_yields.simps [of s] axby_yields.simps [of "s\<lparr>axby_maxb := m\<rparr>"]
            axby_next_maxb)
    next
      case False
      have "axby_yields (s'\<lparr>axby_maxb := m\<rparr>) = axby_yields s'"
        using "1.IH" [OF Inr r [symmetric]] False by simp
      then show ?thesis
        using Inr r False
        by (simp add: axby_yields.simps [of s] axby_yields.simps [of "s\<lparr>axby_maxb := m\<rparr>"]
            axby_next_maxb)
    qed
  qed
qed

lemma axby_yields_first_row:
  "axby_inv s \<Longrightarrow> axby_maxp s = INT_MAX \<Longrightarrow> p \<in> set (axby_yields s) \<Longrightarrow>
   pt_b p = pt_b (axby_p s) \<and> pt_x p = pt_x (axby_p s)"
proof (induction s rule: axby_yields.induct)
  case (1 s)
  from "1.prems"(3) obtain s' where nx: "axby_next s = Inr (s', False)"
    and p: "p = axby_p s' \<or> p \<in> set (axby_yields s')"
    by (rule axby_yields_cases)
  have a: "pt_a (axby_p s) = axby_a_dim s" and y: "pt_y (axby_p s) \<le> axby_maxp s"
    using "1.prems"(1) by (simp_all add: axby_inv_def)
  have "pt_y (axby_p s) \<noteq> INT_MAX"
    using axby_next_y_max [OF a] nx by auto
  then have "pt_y (axby_p s) < axby_maxp s"
    using y "1.prems"(2) by simp
  then have "axby_next s = Inr (s\<lparr>axby_p := (axby_p s)\<lparr>pt_y := pt_y (axby_p s) + 1\<rparr>\<rparr>, False)"
    using a "1.prems"(2) by (intro axby_next_y) simp_all
  with nx have s': "s' = s\<lparr>axby_p := (axby_p s)\<lparr>pt_y := pt_y (axby_p s) + 1\<rparr>\<rparr>"
    by simp
  note inv' = axby_next_inv [OF "1.prems"(1) nx]
  show ?case
  proof (cases "p = axby_p s'")
    case True
    then show ?thesis by (simp add: s')
  next
    case False
    with p have "p \<in> set (axby_yields s')" by simp
    from "1.IH" [OF nx refl _ conjunct1 [OF inv'] _ this] "1.prems"(2)
    show ?thesis by (simp add: s')
  qed
qed

lemma axby_yielded_spec:
  assumes "0 < maxb" "2 < maxp" "maxp < INT_MAX" "0 < a" "a \<le> INT_MAX"
  shows "axby_yielded maxb maxp a = points_spec maxp a"
proof -
  let ?s = "\<lparr>axby_maxb = maxb, axby_maxp = maxp,
             axby_p = \<lparr>pt_a = a, pt_x = 3, pt_b = 1, pt_y = 2\<rparr>, axby_a_dim = a\<rparr>"
  have mk: "axby maxb maxp a = Inr ?s"
    using assms by (simp add: axby_def)
  have inv: "axby_inv ?s"
    using assms by (simp add: axby_inv_def)
  have "axby_yields ?s =
      row_spec maxp a 1 3 (2 + 1) @ rows_spec maxp a 1 (3 + 1) @ slice_spec maxp a (1 + 1)"
    using axby_yields_spec [OF inv] assms by simp
  moreover have "filter (\<lambda>b. gcd a b = 1) [1..a] = 1 # filter (\<lambda>b. gcd a b = 1) [1 + 1..a]"
    using assms by (simp add: upto_rec1 [of 1 a])
  then have "slice_spec maxp a 1 = rows_spec maxp a 1 3 @ slice_spec maxp a (1 + 1)"
    by (rule slice_spec_Cons)
  moreover have "rows_spec maxp a 1 3 = row_spec maxp a 1 3 3 @ rows_spec maxp a 1 (3 + 1)"
    using assms by (intro rows_spec_Cons) simp
  ultimately show ?thesis
    by (simp add: axby_yielded_def mk points_spec_slice)
qed

lemma axby_yielded_first_row:
  assumes "p \<in> set (axby_yielded maxb INT_MAX a)"
  shows "pt_b p = 1 \<and> pt_x p = 3"
proof -
  let ?s = "\<lparr>axby_maxb = maxb, axby_maxp = INT_MAX,
             axby_p = \<lparr>pt_a = a, pt_x = 3, pt_b = 1, pt_y = 2\<rparr>, axby_a_dim = a\<rparr>"
  have pos: "0 < maxb" "0 < a"
    using assms by (auto simp: axby_yielded_def axby_def split: if_splits)
  then have mk: "axby maxb INT_MAX a = Inr ?s"
    by (simp add: axby_def INT_MAX_def)
  have inv: "axby_inv ?s"
    using pos by (simp add: axby_inv_def INT_MAX_def)
  have "p \<in> set (axby_yields ?s)"
    using assms by (simp add: axby_yielded_def mk)
  from axby_yields_first_row [OF inv _ this] show ?thesis
    by simp
qed

lemma axby_constructed_state:
  assumes "axby maxb maxp a = Inr s"
  shows "s = \<lparr>axby_maxb = maxb, axby_maxp = maxp,
              axby_p = \<lparr>pt_a = a, pt_x = 3, pt_b = 1, pt_y = 2\<rparr>, axby_a_dim = a\<rparr>"
    and "axby_inv s"
    and "axby_yielded maxb maxp a = axby_yields s"
  using assms by (auto simp: axby_def axby_inv_def axby_yielded_def split: if_splits)

lemma axby_yielded_first:
  assumes "0 < maxb" "2 < maxp" "maxp \<le> INT_MAX" "0 < a"
  shows "\<lparr>pt_a = a, pt_x = 3, pt_b = 1, pt_y = 3\<rparr> \<in> set (axby_yielded maxb maxp a)"
proof -
  let ?s = "\<lparr>axby_maxb = maxb, axby_maxp = maxp,
             axby_p = \<lparr>pt_a = a, pt_x = 3, pt_b = 1, pt_y = 2\<rparr>, axby_a_dim = a\<rparr>"
  have mk: "axby maxb maxp a = Inr ?s"
    using assms by (simp add: axby_def)
  have "axby_next ?s = Inr (?s\<lparr>axby_p := (axby_p ?s)\<lparr>pt_y := pt_y (axby_p ?s) + 1\<rparr>\<rparr>, False)"
    using assms by (intro axby_next_y) simp_all
  then have "axby_yields ?s =
      axby_p (?s\<lparr>axby_p := (axby_p ?s)\<lparr>pt_y := pt_y (axby_p ?s) + 1\<rparr>\<rparr>)
      # axby_yields (?s\<lparr>axby_p := (axby_p ?s)\<lparr>pt_y := pt_y (axby_p ?s) + 1\<rparr>\<rparr>)"
    by (rule axby_yields_Cons)
  then show ?thesis
    by (simp add: axby_yielded_def mk)
qed

lemma pt_b_points_spec:
  assumes "2 < maxp"
  shows "pt_b ` set (points_spec maxp a) = {b. 1 \<le> b \<and> b \<le> a \<and> gcd a b = 1}"
proof (intro set_eqI iffI)
  fix b
  assume "b \<in> pt_b ` set (points_spec maxp a)"
  then obtain p where "p \<in> set (points_spec maxp a)" "b = pt_b p"
    by (elim imageE)
  then show "b \<in> {b. 1 \<le> b \<and> b \<le> a \<and> gcd a b = 1}"
    unfolding set_points_spec by simp
next
  fix b
  assume "b \<in> {b. 1 \<le> b \<and> b \<le> a \<and> gcd a b = 1}"
  then have "\<lparr>pt_a = a, pt_x = 3, pt_b = b, pt_y = 3\<rparr> \<in> set (points_spec maxp a)"
    unfolding set_points_spec using assms by simp
  then show "b \<in> pt_b ` set (points_spec maxp a)"
    by (rule rev_image_eqI) simp
qed

section \<open>The orchestrator after a search\<close>

text \<open>
  The loops of \<^verbatim>\<open>do_work\<close> with the orchestrator handed through them return it as it
  was, with the vector that \<open>do_work\<close> returns.
\<close>

lemma found_loop_spec:
  "found_loop w i pt =
     (case found_all (drop i (work_czs w)) pt of Inl e \<Rightarrow> Inl e | Inr f \<Rightarrow> Inr (w, f))"
proof (induction w i pt rule: found_loop.induct)
  case (1 w i pt)
  show ?case
  proof (cases "i < length (work_czs w)")
    case False
    then show ?thesis
      by (simp add: found_loop.simps [of w i pt])
  next
    case True
    then have d: "drop i (work_czs w) = work_czs w ! i # drop (i + 1) (work_czs w)"
      by (simp add: Cons_nth_drop_Suc)
    show ?thesis
    proof (cases "sieve_arg (work_czs w ! i) pt")
      case (Inl e)
      then show ?thesis
        using True d by (simp add: found_loop.simps [of w i pt])
    next
      case (Inr val)
      show ?thesis
      proof (cases "exists (work_czs w ! i) val")
        case False
        then show ?thesis
          using True d Inr by (simp add: found_loop.simps [of w i pt])
      next
        case ex: True
        have "found_loop w (i + 1) pt =
          (case found_all (drop (i + 1) (work_czs w)) pt of
             Inl e \<Rightarrow> Inl e | Inr f \<Rightarrow> Inr (w, f))"
          using "1.IH" [OF True refl Inr] ex by simp
        then show ?thesis
          using True d Inr ex by (simp add: found_loop.simps [of w i pt])
      qed
    qed
  qed
qed

lemma work_loop_st_spec:
  "work_loop_st w s rs =
     (case work_loop (work_czs w) s rs of Inl e \<Rightarrow> Inl e | Inr out \<Rightarrow> Inr (w, out))"
proof (induction w s rs rule: work_loop_st.induct)
  case (1 w s rs)
  have fl: "found_loop w 0 (axby_p s) =
      (case found_all (work_czs w) (axby_p s) of Inl e \<Rightarrow> Inl e | Inr f \<Rightarrow> Inr (w, f))"
    using found_loop_spec [of w 0 "axby_p s"] by simp
  show ?case
  proof (cases "found_all (work_czs w) (axby_p s)")
    case (Inl e)
    then show ?thesis
      using fl by (simp add: work_loop_st.simps [of w s rs] work_loop.simps [of _ s rs])
  next
    case (Inr f)
    then have fl': "found_loop w 0 (axby_p s) = Inr (w, f)"
      using fl by simp
    show ?thesis
    proof (cases "axby_next s")
      case (Inl e)
      then show ?thesis
        using fl' Inr by (simp add: work_loop_st.simps [of w s rs] work_loop.simps [of _ s rs])
    next
      case nx: (Inr r)
      obtain s' d where r: "r = (s', d)" by (cases r)
      show ?thesis
      proof (cases d)
        case True
        then show ?thesis
          using fl' Inr nx r
          by (simp add: work_loop_st.simps [of w s rs] work_loop.simps [of _ s rs])
      next
        case False
        let ?rs = "if f then rs @ [axby_p s] else rs"
        have "work_loop_st w s' ?rs =
          (case work_loop (work_czs w) s' ?rs of Inl e \<Rightarrow> Inl e | Inr out \<Rightarrow> Inr (w, out))"
          using "1.IH" [OF fl' refl refl nx r [symmetric]] False by simp
        then show ?thesis
          using fl' Inr nx r False
          by (cases f) (simp_all add: work_loop_st.simps [of w s rs] work_loop.simps [of _ s rs])
      qed
    qed
  qed
qed

lemma do_work_st_spec:
  "do_work_st w a rs =
     (case do_work w a rs of Inl e \<Rightarrow> Inl e | Inr out \<Rightarrow> Inr (w, out))"
  by (simp add: do_work_st_def do_work_def work_loop_st_spec split: sum.splits prod.splits)

section \<open>Concrete instances\<close>

lemma points_3_3:
  "points_spec 3 3 =
     [\<lparr>pt_a = 3, pt_x = 3, pt_b = 1, pt_y = 3\<rparr>, \<lparr>pt_a = 3, pt_x = 3, pt_b = 2, pt_y = 3\<rparr>]"
  by code_simp

lemma axby_points_3_3:
  "axby_points 3 3 3 =
     Inr [\<lparr>pt_a = 3, pt_x = 3, pt_b = 1, pt_y = 3\<rparr>, \<lparr>pt_a = 3, pt_x = 3, pt_b = 2, pt_y = 3\<rparr>]"
  using axby_points_spec [of 3 3 3] by (simp add: INT_MAX_def points_3_3)

lemma sieve_3_3_5:
  assumes t: "cz 3 3 5 = Inr t"
  shows "sieve_ok t \<lparr>pt_a = 3, pt_x = 3, pt_b = 1, pt_y = 3\<rparr>"
    and "\<not> sieve_ok t \<lparr>pt_a = 3, pt_x = 3, pt_b = 2, pt_y = 3\<rparr>"
proof -
  have ex: "exists t v = (\<exists>c z. 1 \<le> c \<and> c \<le> 3 \<and> 3 \<le> z \<and> z \<le> 3 \<and> modpow c z 5 = v)" for v
    unfolding exists_def cz_built(10) [OF t] ..
  have "(1::nat) \<le> 2 \<and> (2::nat) \<le> 3 \<and> (3::nat) \<le> 3 \<and> (3::nat) \<le> 3 \<and> modpow 2 3 5 = 3"
    by (simp add: modpow_def)
  then have "exists t 3"
    unfolding ex by (intro exI)
  moreover have "sieve_ok t \<lparr>pt_a = 3, pt_x = 3, pt_b = 1, pt_y = 3\<rparr> = exists t 3"
    using sieve_ok_built [OF t, of "\<lparr>pt_a = 3, pt_x = 3, pt_b = 1, pt_y = 3\<rparr>"]
    by (simp add: modpow_def)
  ultimately show "sieve_ok t \<lparr>pt_a = 3, pt_x = 3, pt_b = 1, pt_y = 3\<rparr>"
    by simp
  have "modpow c z 5 \<noteq> 0" if "1 \<le> c" "c \<le> 3" "3 \<le> z" "z \<le> 3" for c z :: nat
  proof -
    from that have "z = 3" "c = 1 \<or> c = 2 \<or> c = 3" by auto
    then show ?thesis by (auto simp: modpow_def)
  qed
  then have "\<not> exists t 0"
    unfolding ex by blast
  moreover have "sieve_ok t \<lparr>pt_a = 3, pt_x = 3, pt_b = 2, pt_y = 3\<rparr> = exists t 0"
    using sieve_ok_built [OF t, of "\<lparr>pt_a = 3, pt_x = 3, pt_b = 2, pt_y = 3\<rparr>"]
    by (simp add: modpow_def)
  ultimately show "\<not> sieve_ok t \<lparr>pt_a = 3, pt_x = 3, pt_b = 2, pt_y = 3\<rparr>"
    by simp
qed

section \<open>Claims about the residue table\<close>

text \<open>
  Claim C3. For every table built by the constructor of \<^verbatim>\<open>cz\<close> with bounds \<open>maxb\<close>,
  \<open>maxp\<close> and modulus \<open>m\<close>, and every \<open>c\<close> from 1 to \<open>maxb\<close> and \<open>z\<close> from 3 to \<open>maxp\<close>,
  \<^verbatim>\<open>get(c, z)\<close> returns \<^verbatim>\<open>modpow(c, z, m)\<close>, and \<^verbatim>\<open>exists\<close> is true of that value.
\<close>

theorem get_is_modpow_and_exists:
  assumes "cz maxb maxp m = Inr t"
    and "1 \<le> c" "c \<le> int maxb" "3 \<le> z" "z \<le> int maxp"
  shows "get t c z = Inr (modpow (nat c) (nat z) m) \<and> exists t (modpow (nat c) (nat z) m)"
proof
  show "get t c z = Inr (modpow (nat c) (nat z) m)"
    using assms by (rule get_built)
  have "1 \<le> nat c \<and> nat c \<le> maxb \<and> 3 \<le> nat z \<and> nat z \<le> maxp"
    using assms(2-5) by auto
  then show "exists t (modpow (nat c) (nat z) m)"
    unfolding exists_def cz_built(10) [OF assms(1)] by blast
qed

theorem get_is_modpow_and_exists_witness:
  "cz_make_get 4 4 7 3 4 = Inr 4 \<and> cz_make_exists 4 4 7 4 = Inr True"
proof -
  obtain t where t: "cz 4 4 7 = Inr t"
    using cz_builds [of 4 4 7] by (auto simp: UINT_MAX_def)
  have "get t 3 4 = Inr (modpow (nat 3) (nat 4) 7) \<and> exists t (modpow (nat 3) (nat 4) 7)"
    using t by (rule get_is_modpow_and_exists) simp_all
  then show ?thesis
    by (simp add: cz_make_get_def cz_make_exists_def t modpow_def)
qed

text \<open>
  Claim C4, as amended. For every table built by the constructor, and every value \<open>v\<close>,
  \<^verbatim>\<open>exists(v)\<close> is true exactly when \<open>v\<close> is the reduced residue \<open>c ^ z mod m\<close> of some
  \<open>c\<close> from 1 to \<open>maxb\<close> and \<open>z\<close> from 3 to \<open>maxp\<close>. \<^verbatim>\<open>get\<close>, \<^verbatim>\<open>exists\<close> and \<^verbatim>\<open>mod\<close> are
  \<^verbatim>\<open>const\<close> and only read the table, so this holds for as long as the table lives.
\<close>

theorem exists_iff_reduced_residue:
  assumes "cz maxb maxp m = Inr t"
  shows "exists t v = (\<exists>c z. 1 \<le> c \<and> c \<le> maxb \<and> 3 \<le> z \<and> z \<le> maxp \<and> c ^ z mod m = v)"
  unfolding exists_def cz_built(10) [OF assms] modpow_def ..

theorem exists_iff_reduced_residue_witness:
  "cz_make_exists 4 4 7 6 = Inr True"
proof -
  obtain t where t: "cz 4 4 7 = Inr t"
    using cz_builds [of 4 4 7] by (auto simp: UINT_MAX_def)
  have "(1::nat) \<le> 3 \<and> (3::nat) \<le> 4 \<and> (3::nat) \<le> 3 \<and> (3::nat) \<le> 4 \<and> (3::nat) ^ 3 mod 7 = 6"
    by simp
  then have "\<exists>c z. 1 \<le> c \<and> c \<le> (4::nat) \<and> 3 \<le> z \<and> z \<le> (4::nat) \<and> c ^ z mod 7 = (6::nat)"
    by (intro exI)
  then have "exists t 6"
    using exists_iff_reduced_residue [OF t, of 6] by simp
  then show ?thesis
    by (simp add: cz_make_exists_def t)
qed

text \<open>
  Claim C4 as stated speaks of congruence: \<open>2 ^ 3 = 8\<close> is congruent to 8 modulo 7, with
  \<open>c = 2\<close> and \<open>z = 3\<close> within the bounds 4 and 4, and \<^verbatim>\<open>exists(8)\<close> is false: the sieve marks
  only residues below the modulus.
\<close>

theorem exists_congruent_counterexample:
  "cz_make_exists 4 4 7 8 = Inr False \<and> (2::nat) ^ 3 mod 7 = 8 mod 7"
proof -
  obtain t where t: "cz 4 4 7 = Inr t"
    using cz_builds [of 4 4 7] by (auto simp: UINT_MAX_def)
  have "modpow c z 7 \<noteq> 8" for c z
  proof -
    have "modpow c z 7 < 7" by (simp add: modpow_def)
    then show ?thesis by simp
  qed
  then have "\<not> cz_exists t 8"
    unfolding cz_built(10) [OF t] by simp
  then show ?thesis
    by (simp add: cz_make_exists_def t exists_def)
qed

section \<open>Claims about the enumerator\<close>

text \<open>
  Claim C2, as amended. For an enumerator constructed with bounds \<open>maxb\<close>, \<open>maxp\<close> and a
  fixed \<open>a\<close> (the constructor asserts \<open>maxb > 0\<close>, \<open>maxp > 2\<close> and \<open>a > 0\<close>), where \<open>maxp\<close> and
  \<open>a\<close> are below \<open>INT_MAX\<close>, the calls of \<^verbatim>\<open>next\<close> return, before done, exactly the list
  \<open>points_spec maxp a\<close>: the quadruples \<open>(a, x, b, y)\<close> with
  \<open>3 \<le> x, y \<le> maxp\<close>, \<open>1 \<le> b \<le> a\<close> and \<open>gcd a b = 1\<close>, each once, \<open>y\<close> varying fastest, then
  \<open>x\<close>, then \<open>b\<close>, starting with \<open>(a, 3, 1, 3)\<close>.
\<close>

theorem enumeration_is_points_spec:
  assumes "axby maxb maxp a = Inr s" "maxp < INT_MAX" "a < INT_MAX"
  shows "axby_run s = Inr (points_spec maxp a) \<and>
    set (points_spec maxp a) =
      {p. pt_a p = a \<and> 1 \<le> pt_b p \<and> pt_b p \<le> a \<and> gcd a (pt_b p) = 1 \<and>
          3 \<le> pt_x p \<and> pt_x p \<le> maxp \<and> 3 \<le> pt_y p \<and> pt_y p \<le> maxp} \<and>
    distinct (points_spec maxp a) \<and>
    hd (points_spec maxp a) = \<lparr>pt_a = a, pt_x = 3, pt_b = 1, pt_y = 3\<rparr>"
proof (intro conjI)
  note c = axby_constructed [OF assms(1)]
  have "axby_points maxb maxp a = Inr (points_spec maxp a)"
    using c(1,2) assms(2) c(3) assms(3) by (rule axby_points_spec)
  then show "axby_run s = Inr (points_spec maxp a)"
    by (simp add: c(4))
  show "set (points_spec maxp a) =
      {p. pt_a p = a \<and> 1 \<le> pt_b p \<and> pt_b p \<le> a \<and> gcd a (pt_b p) = 1 \<and>
          3 \<le> pt_x p \<and> pt_x p \<le> maxp \<and> 3 \<le> pt_y p \<and> pt_y p \<le> maxp}"
    by (rule set_points_spec)
  show "distinct (points_spec maxp a)"
    by (rule distinct_points_spec)
  show "hd (points_spec maxp a) = \<lparr>pt_a = a, pt_x = 3, pt_b = 1, pt_y = 3\<rparr>"
    using c(3,2) by (rule hd_points_spec)
qed

theorem enumeration_is_points_spec_witness:
  "axby_points 5 4 3 =
     Inr [\<lparr>pt_a = 3, pt_x = 3, pt_b = 1, pt_y = 3\<rparr>, \<lparr>pt_a = 3, pt_x = 3, pt_b = 1, pt_y = 4\<rparr>,
          \<lparr>pt_a = 3, pt_x = 4, pt_b = 1, pt_y = 3\<rparr>, \<lparr>pt_a = 3, pt_x = 4, pt_b = 1, pt_y = 4\<rparr>,
          \<lparr>pt_a = 3, pt_x = 3, pt_b = 2, pt_y = 3\<rparr>, \<lparr>pt_a = 3, pt_x = 3, pt_b = 2, pt_y = 4\<rparr>,
          \<lparr>pt_a = 3, pt_x = 4, pt_b = 2, pt_y = 3\<rparr>, \<lparr>pt_a = 3, pt_x = 4, pt_b = 2, pt_y = 4\<rparr>]"
proof -
  obtain s where s: "axby 5 4 3 = Inr s"
    by (simp add: axby_def)
  have "axby_run s = Inr (points_spec 4 3)"
    by (rule conjunct1 [OF enumeration_is_points_spec [OF s]]) (simp_all add: INT_MAX_def)
  moreover have "points_spec 4 3 =
         [\<lparr>pt_a = 3, pt_x = 3, pt_b = 1, pt_y = 3\<rparr>, \<lparr>pt_a = 3, pt_x = 3, pt_b = 1, pt_y = 4\<rparr>,
          \<lparr>pt_a = 3, pt_x = 4, pt_b = 1, pt_y = 3\<rparr>, \<lparr>pt_a = 3, pt_x = 4, pt_b = 1, pt_y = 4\<rparr>,
          \<lparr>pt_a = 3, pt_x = 3, pt_b = 2, pt_y = 3\<rparr>, \<lparr>pt_a = 3, pt_x = 3, pt_b = 2, pt_y = 4\<rparr>,
          \<lparr>pt_a = 3, pt_x = 4, pt_b = 2, pt_y = 3\<rparr>, \<lparr>pt_a = 3, pt_x = 4, pt_b = 2, pt_y = 4\<rparr>]"
    by code_simp
  ultimately show ?thesis
    by (simp add: axby_points_def s)
qed

text \<open>
  Claim C2 as stated has no upper bound on \<open>maxp\<close> and \<open>a\<close>. With \<open>maxp = INT_MAX\<close> the
  increment \<^verbatim>\<open>++p_.y\<close> overflows after the point with \<open>y = INT_MAX\<close>; with \<open>a = INT_MAX\<close>
  the increment \<^verbatim>\<open>p_.b++\<close> overflows at \<open>b = a\<close>, where \<open>gcd a b = a\<close>. Neither run reaches
  done.
\<close>

theorem enumeration_int_max_counterexample:
  "axby_points 1 2147483647 1 = Inl UndefinedBehaviour \<and>
   axby_points 1 3 2147483647 = Inl UndefinedBehaviour"
proof
  show "axby_points 1 2147483647 1 = Inl UndefinedBehaviour"
    by (rule axby_points_overflow) (simp_all add: INT_MAX_def)
  show "axby_points 1 3 2147483647 = Inl UndefinedBehaviour"
    by (rule axby_points_overflow) (simp_all add: INT_MAX_def)
qed

text \<open>
  Claim C7, as amended. For enumerators constructed for \<open>a\<close> and for \<open>b\<close>, where \<open>b < a\<close>,
  \<open>gcd a b = 1\<close> and the enumerator of the larger value \<open>a\<close> has \<open>maxp\<close> below \<open>INT_MAX\<close>: the
  calls of \<^verbatim>\<open>next\<close> for \<open>a\<close> return a point with the smaller value as its \<open>b\<close>, and the calls
  of \<^verbatim>\<open>next\<close> for \<open>b\<close> return no point with the larger value as its \<open>b\<close>, whatever the
  bounds of that enumerator and however its calls end; the pair is enumerated from one
  slice only. \<open>a\<close> is a value of \<^verbatim>\<open>int\<close> and may be \<open>INT_MAX\<close> itself: the points are returned
  before the increment of \<^verbatim>\<open>p_.b\<close> that overflows.
\<close>

theorem pair_yielded_by_larger_slice_only:
  assumes "axby maxb maxp a = Inr sa" "axby maxb' maxp' b = Inr sb"
    and "b < a" "gcd a b = 1" "a \<le> INT_MAX" "maxp < INT_MAX"
  shows "(\<exists>p\<in>set (axby_yields sa). pt_a p = a \<and> pt_b p = b) \<and>
    (\<forall>q\<in>set (axby_yields sb). pt_b q \<noteq> a)"
proof
  note ca = axby_constructed [OF assms(1)] and cb = axby_constructed [OF assms(2)]
  have "axby_yielded maxb maxp a = points_spec maxp a"
    using ca(1,2) assms(6) ca(3) assms(5) by (rule axby_yielded_spec)
  then have ya: "axby_yields sa = points_spec maxp a"
    by (simp add: axby_constructed_state(3) [OF assms(1)])
  have "\<lparr>pt_a = a, pt_x = 3, pt_b = b, pt_y = 3\<rparr> \<in> set (points_spec maxp a)"
    unfolding set_points_spec using assms(3,4) cb(3) ca(2) by simp
  then show "\<exists>p\<in>set (axby_yields sa). pt_a p = a \<and> pt_b p = b"
    unfolding ya by (rule rev_bexI) simp
  show "\<forall>q\<in>set (axby_yields sb). pt_b q \<noteq> a"
  proof
    fix q
    assume "q \<in> set (axby_yields sb)"
    from axby_yields_range [OF axby_constructed_state(2) [OF assms(2)] this]
    have "pt_b q \<le> pt_a (axby_p sb)"
      by simp
    also have "pt_a (axby_p sb) = b"
      by (simp add: axby_constructed_state(1) [OF assms(2)])
    finally show "pt_b q \<noteq> a"
      using assms(3) by simp
  qed
qed

text \<open>
  The pair of \<open>INT_MAX\<close> and 2, with \<open>maxp = 3\<close>; and the slices of 3 and of 2 in full, where
  the pair of 3 and 2 is in the slice of 3 only.
\<close>

theorem pair_yielded_by_larger_slice_only_witness:
  "(\<exists>p. p \<in> set (axby_yielded 5 3 2147483647) \<and> pt_a p = 2147483647 \<and> pt_b p = 2) \<and>
   2147483647 \<notin> pt_b ` set (axby_yielded 5 3 2) \<and>
   axby_yielded 5 3 3 =
     [\<lparr>pt_a = 3, pt_x = 3, pt_b = 1, pt_y = 3\<rparr>, \<lparr>pt_a = 3, pt_x = 3, pt_b = 2, pt_y = 3\<rparr>] \<and>
   axby_yielded 5 3 2 = [\<lparr>pt_a = 2, pt_x = 3, pt_b = 1, pt_y = 3\<rparr>]"
proof -
  obtain sb where sb: "axby 5 3 2 = Inr sb"
    by (simp add: axby_def)
  obtain sm where sm: "axby 5 3 2147483647 = Inr sm"
    by (simp add: axby_def)
  have gm: "gcd (2147483647::int) 2 = 1"
    by code_simp
  have th: "(\<exists>p\<in>set (axby_yields sm). pt_a p = 2147483647 \<and> pt_b p = 2) \<and>
      (\<forall>q\<in>set (axby_yields sb). pt_b q \<noteq> 2147483647)"
    by (rule pair_yielded_by_larger_slice_only [OF sm sb _ gm]) (simp_all add: INT_MAX_def)
  have m: "\<exists>p. p \<in> set (axby_yielded 5 3 2147483647) \<and> pt_a p = 2147483647 \<and> pt_b p = 2"
    using conjunct1 [OF th] unfolding axby_constructed_state(3) [OF sm] by (simp add: Bex_def)
  have n: "2147483647 \<notin> pt_b ` set (axby_yielded 5 3 2)"
    using conjunct2 [OF th] unfolding axby_constructed_state(3) [OF sb] by (simp add: image_iff)
  have "axby_yielded 5 3 3 = points_spec 3 3" "axby_yielded 5 3 2 = points_spec 3 2"
    by (rule axby_yielded_spec; simp add: INT_MAX_def)+
  moreover have "points_spec 3 2 = [\<lparr>pt_a = 2, pt_x = 3, pt_b = 1, pt_y = 3\<rparr>]"
    by code_simp
  ultimately have "axby_yielded 5 3 3 =
      [\<lparr>pt_a = 3, pt_x = 3, pt_b = 1, pt_y = 3\<rparr>, \<lparr>pt_a = 3, pt_x = 3, pt_b = 2, pt_y = 3\<rparr>]"
    and "axby_yielded 5 3 2 = [\<lparr>pt_a = 2, pt_x = 3, pt_b = 1, pt_y = 3\<rparr>]"
    by (simp_all add: points_3_3)
  with m n show ?thesis
    by (intro conjI)
qed

text \<open>
  Claim C7 as stated has no bound on \<open>maxp\<close>. With \<open>maxp = INT_MAX\<close> the enumerator of 3
  returns \<open>(3, 3, 1, 3)\<close> and the points of the row \<open>x = 3\<close>, \<open>b = 1\<close> after it, until \<^verbatim>\<open>++p_.y\<close>
  overflows at \<open>y = INT_MAX\<close>: no call returns a point with \<open>b = 2\<close>, and \<open>gcd 3 2 = 1\<close>.
\<close>

theorem pair_max_exponent_counterexample:
  "gcd (3::int) 2 = 1 \<and>
   \<lparr>pt_a = 3, pt_x = 3, pt_b = 1, pt_y = 3\<rparr> \<in> set (axby_yielded 3 2147483647 3) \<and>
   2 \<notin> pt_b ` set (axby_yielded 3 2147483647 3)"
proof (intro conjI)
  show "gcd (3::int) 2 = 1" by code_simp
  show "\<lparr>pt_a = 3, pt_x = 3, pt_b = 1, pt_y = 3\<rparr> \<in> set (axby_yielded 3 2147483647 3)"
    by (rule axby_yielded_first) (simp_all add: INT_MAX_def)
  show "2 \<notin> pt_b ` set (axby_yielded 3 2147483647 3)"
  proof
    assume "2 \<in> pt_b ` set (axby_yielded 3 2147483647 3)"
    then obtain p where "p \<in> set (axby_yielded 3 INT_MAX 3)" "pt_b p = 2"
      unfolding INT_MAX_def by (elim imageE) simp
    then show False
      using axby_yielded_first_row [of p 3 3] by simp
  qed
qed

text \<open>
  Claim C9, as amended. Two enumerators constructed with the same \<open>maxp\<close> and \<open>a\<close> and any
  two bounds \<open>maxb\<close> and \<open>maxb'\<close> return the same points in the same order, and their calls
  end alike, with done or with the same failure. When \<open>maxp\<close> is below \<open>INT_MAX\<close> (and \<open>a\<close> a
  value of \<^verbatim>\<open>int\<close>) the points are those of \<open>points_spec maxp a\<close>, and the values of \<open>b\<close> among
  them are exactly the \<open>b\<close> with \<open>1 \<le> b \<le> a\<close> and \<open>gcd a b = 1\<close>, those above \<open>maxb\<close> included.
\<close>

theorem yields_independent_of_maxb:
  assumes "axby maxb maxp a = Inr s" "axby maxb' maxp a = Inr s'"
  shows "axby_yields s = axby_yields s' \<and> axby_run s = axby_run s' \<and>
    (maxp < INT_MAX \<and> a \<le> INT_MAX \<longrightarrow>
       axby_yields s = points_spec maxp a \<and>
       pt_b ` set (axby_yields s) = {b. 1 \<le> b \<and> b \<le> a \<and> gcd a b = 1})"
proof (intro conjI impI)
  note c = axby_constructed [OF assms(1)]
  have s': "s' = s\<lparr>axby_maxb := maxb'\<rparr>"
    by (simp add: axby_constructed_state(1) [OF assms(1)] axby_constructed_state(1) [OF assms(2)])
  show "axby_yields s = axby_yields s'"
    unfolding s' by (rule axby_yields_maxb [symmetric])
  show "axby_run s = axby_run s'"
    unfolding s' by (rule axby_run_maxb [symmetric])
  assume b: "maxp < INT_MAX \<and> a \<le> INT_MAX"
  have "axby_yielded maxb maxp a = points_spec maxp a"
    using c(1,2) conjunct1 [OF b] c(3) conjunct2 [OF b] by (rule axby_yielded_spec)
  then show ys: "axby_yields s = points_spec maxp a"
    by (simp add: axby_constructed_state(3) [OF assms(1)])
  show "pt_b ` set (axby_yields s) = {b. 1 \<le> b \<and> b \<le> a \<and> gcd a b = 1}"
    unfolding ys using c(2) by (rule pt_b_points_spec)
qed

text \<open>
  The enumerator of 3 constructed with \<open>maxb = 1\<close> returns a point with \<open>b = 2\<close>, as the one
  constructed with \<open>maxb = 7\<close> does.
\<close>

theorem yields_independent_of_maxb_witness:
  "axby_yielded 1 3 3 =
     [\<lparr>pt_a = 3, pt_x = 3, pt_b = 1, pt_y = 3\<rparr>, \<lparr>pt_a = 3, pt_x = 3, pt_b = 2, pt_y = 3\<rparr>] \<and>
   axby_yielded 7 3 3 = axby_yielded 1 3 3 \<and> axby_points 7 3 3 = axby_points 1 3 3"
proof -
  obtain s where s: "axby 1 3 3 = Inr s" by (simp add: axby_def)
  obtain s' where s': "axby 7 3 3 = Inr s'" by (simp add: axby_def)
  note th = yields_independent_of_maxb [OF s s']
  have eq: "axby_yields s' = axby_yields s"
    using conjunct1 [OF th] by (rule sym)
  have eqr: "axby_run s' = axby_run s"
    using conjunct1 [OF conjunct2 [OF th]] by (rule sym)
  have "axby_yields s = points_spec 3 3"
    using conjunct2 [OF conjunct2 [OF th]] by (simp add: INT_MAX_def)
  then show ?thesis
    by (simp add: axby_constructed_state(3) [OF s] axby_constructed_state(3) [OF s'] eq
        axby_points_def s s' eqr points_3_3)
qed

text \<open>
  Claim C9 as stated has every \<open>b\<close> up to \<open>a\<close> yielded. With \<open>maxp = INT_MAX\<close> the enumerator
  of 3 constructed with \<open>maxb = 1\<close> returns \<open>(3, 3, 1, 3)\<close> and never a point with \<open>b = 2\<close>:
  \<^verbatim>\<open>++p_.y\<close> overflows in the first row. And \<open>b\<close> is pruned by \<^verbatim>\<open>gcd\<close> on line 108: the
  enumerator of 6 with \<open>maxb = 1\<close> and \<open>maxp = 3\<close> returns the points with \<open>b = 1\<close> and \<open>b = 5\<close>
  and no point with \<open>b = 2\<close>, 3 or 4.
\<close>

theorem yields_every_b_counterexample:
  "\<lparr>pt_a = 3, pt_x = 3, pt_b = 1, pt_y = 3\<rparr> \<in> set (axby_yielded 1 2147483647 3) \<and>
   2 \<notin> pt_b ` set (axby_yielded 1 2147483647 3) \<and>
   axby_yielded 1 3 6 =
     [\<lparr>pt_a = 6, pt_x = 3, pt_b = 1, pt_y = 3\<rparr>, \<lparr>pt_a = 6, pt_x = 3, pt_b = 5, pt_y = 3\<rparr>]"
proof (intro conjI)
  show "\<lparr>pt_a = 3, pt_x = 3, pt_b = 1, pt_y = 3\<rparr> \<in> set (axby_yielded 1 2147483647 3)"
    by (rule axby_yielded_first) (simp_all add: INT_MAX_def)
  show "2 \<notin> pt_b ` set (axby_yielded 1 2147483647 3)"
  proof
    assume "2 \<in> pt_b ` set (axby_yielded 1 2147483647 3)"
    then obtain p where "p \<in> set (axby_yielded 1 INT_MAX 3)" "pt_b p = 2"
      unfolding INT_MAX_def by (elim imageE) simp
    then show False
      using axby_yielded_first_row [of p 1 3] by simp
  qed
  have "axby_yielded 1 3 6 = points_spec 3 6"
    by (rule axby_yielded_spec) (simp_all add: INT_MAX_def)
  also have "points_spec 3 6 =
      [\<lparr>pt_a = 6, pt_x = 3, pt_b = 1, pt_y = 3\<rparr>, \<lparr>pt_a = 6, pt_x = 3, pt_b = 5, pt_y = 3\<rparr>]"
    by code_simp
  finally show "axby_yielded 1 3 6 =
     [\<lparr>pt_a = 6, pt_x = 3, pt_b = 1, pt_y = 3\<rparr>, \<lparr>pt_a = 6, pt_x = 3, pt_b = 5, pt_y = 3\<rparr>]" .
qed

section \<open>Claims about the search\<close>

text \<open>
  Claim C1. For an orchestrator built by the constructor of \<^verbatim>\<open>work\<close> with bounds \<open>maxb\<close>,
  \<open>maxp\<close> and a list of moduli, and \<open>1 \<le> a \<le> maxb\<close>: when the enumerator of \<open>a\<close> yields the
  points \<open>pts\<close>, \<^verbatim>\<open>do_work\<close> called with an empty vector returns exactly the points of
  \<open>pts\<close> that pass \<^verbatim>\<open>exists((get(a,x) + get(b,y)) mod modulus)\<close> for every table, in the
  order of \<open>pts\<close>; below \<open>INT_MAX\<close> the enumerator does yield, and the result is the
  filtered slice; a point that fails one table is not in the result. The bounds are
  values of \<^verbatim>\<open>int\<close> and the moduli values of \<^verbatim>\<open>uint32_t\<close>.
\<close>

theorem search_is_filtered_enumeration:
  assumes "work maxb maxp primes = Inr w"
    and "\<forall>m\<in>set primes. m < 4294967296"
    and "maxb \<le> INT_MAX" "maxp \<le> INT_MAX"
    and "1 \<le> a" "a \<le> maxb"
  shows "(\<forall>pts. axby_points maxb maxp a = Inr pts \<longrightarrow>
            do_work w a [] = Inr (search_spec (work_czs w) pts)) \<and>
    (2 < maxp \<and> maxp < INT_MAX \<and> a < INT_MAX \<longrightarrow>
       do_work w a [] = Inr (search_spec (work_czs w) (points_spec maxp a))) \<and>
    (\<forall>pts. \<forall>p\<in>set pts. (\<exists>t\<in>set (work_czs w). \<not> sieve_ok t p) \<longrightarrow>
       p \<notin> set (search_spec (work_czs w) pts))"
proof (intro conjI allI impI)
  have u32: "m < 4294967296" if "m \<in> set primes" for m
    using assms(2) that by simp
  show rel: "do_work w a [] = Inr (search_spec (work_czs w) pts)"
    if "axby_points maxb maxp a = Inr pts" for pts
    using do_work_built [OF assms(1) u32 assms(3,4,6) that, of "[]"] by simp
  show "do_work w a [] = Inr (search_spec (work_czs w) (points_spec maxp a))"
    if "2 < maxp \<and> maxp < INT_MAX \<and> a < INT_MAX"
  proof (rule rel)
    show "axby_points maxb maxp a = Inr (points_spec maxp a)"
      using assms(5,6) that by (intro axby_points_spec) simp_all
  qed
  show "\<forall>p\<in>set pts. (\<exists>t\<in>set (work_czs w). \<not> sieve_ok t p) \<longrightarrow>
       p \<notin> set (search_spec (work_czs w) pts)" for pts
    by (simp add: search_spec_def list_all_iff)
qed

theorem search_is_filtered_enumeration_witness:
  "\<exists>w. work 3 3 [5] = Inr w \<and>
     do_work w 3 [] = Inr [\<lparr>pt_a = 3, pt_x = 3, pt_b = 1, pt_y = 3\<rparr>]"
proof -
  obtain t where t: "cz 3 3 5 = Inr t"
    using cz_builds [of 3 3 5] by (auto simp: UINT_MAX_def)
  let ?w = "\<lparr>work_maxb = 3, work_maxp = 3, work_czs = [t]\<rparr>"
  have w: "work 3 3 [5] = Inr ?w"
    by (simp add: work_def to_unsigned_def t)
  have "\<forall>pts. axby_points 3 3 3 = Inr pts \<longrightarrow>
      do_work ?w 3 [] = Inr (search_spec (work_czs ?w) pts)"
    by (rule conjunct1 [OF search_is_filtered_enumeration [OF w]])
      (simp_all add: INT_MAX_def)
  then have "do_work ?w 3 [] =
      Inr (search_spec (work_czs ?w)
            [\<lparr>pt_a = 3, pt_x = 3, pt_b = 1, pt_y = 3\<rparr>, \<lparr>pt_a = 3, pt_x = 3, pt_b = 2, pt_y = 3\<rparr>])"
    using axby_points_3_3 by simp
  then have "do_work ?w 3 [] = Inr [\<lparr>pt_a = 3, pt_x = 3, pt_b = 1, pt_y = 3\<rparr>]"
    by (simp add: search_spec_def sieve_3_3_5 [OF t])
  with w show ?thesis
    by (intro exI conjI)
qed

text \<open>
  Claim C10. For an orchestrator constructed with an empty list of moduli, \<^verbatim>\<open>do_work\<close>
  called with an empty vector returns what the enumerator of \<open>a\<close> yields, every point
  retained, and fails where the enumerator fails.
\<close>

theorem search_without_tables:
  assumes "work maxb maxp [] = Inr w"
  shows "do_work w a [] = axby_points maxb maxp a"
proof -
  have "w = \<lparr>work_maxb = maxb, work_maxp = maxp, work_czs = []\<rparr>"
    using assms by (simp add: work_def)
  then show ?thesis
    by (simp add: do_work_no_tables)
qed

theorem search_without_tables_witness:
  "\<exists>w. work 3 3 [] = Inr w \<and>
     do_work w 3 [] =
       Inr [\<lparr>pt_a = 3, pt_x = 3, pt_b = 1, pt_y = 3\<rparr>, \<lparr>pt_a = 3, pt_x = 3, pt_b = 2, pt_y = 3\<rparr>]"
proof -
  let ?w = "\<lparr>work_maxb = 3, work_maxp = 3, work_czs = []\<rparr>"
  have w: "work 3 3 [] = Inr ?w"
    by (simp add: work_def)
  have "do_work ?w 3 [] = axby_points 3 3 3"
    using w by (rule search_without_tables)
  with w show ?thesis
    unfolding axby_points_3_3 by (intro exI conjI)
qed

text \<open>
  Claim C8. \<^verbatim>\<open>do_work\<close> with the orchestrator handed through every statement and
  returned with the vector: when a call with an empty vector returns, the orchestrator
  after the call is the orchestrator before it, bounds and tables; a second call on
  it for the same \<open>a\<close> returns the same list, in the same order; and a call with any
  vector appends that list to it.
\<close>

theorem successive_searches_identical:
  assumes "do_work_st w a [] = Inr (w1, r1)"
  shows "w1 = w \<and> do_work_st w1 a [] = Inr (w1, r1) \<and>
    (\<forall>rs. do_work_st w1 a rs = Inr (w1, rs @ r1))"
proof -
  from assms have w1: "w1 = w" and r1: "do_work w a [] = Inr r1"
    by (auto simp: do_work_st_spec split: sum.splits)
  have "do_work_st w a rs = Inr (w, rs @ r1)" for rs
    using r1 by (simp add: do_work_st_spec do_work_acc [of w a rs])
  then show ?thesis
    using w1 assms by simp
qed

text \<open>
  An orchestrator with the table of the modulus 5, which rejects the point \<open>(3, 3, 2, 3)\<close>:
  two calls for \<open>a = 3\<close>, the second with the vector the first has filled.
\<close>

theorem successive_searches_identical_witness:
  "\<exists>w. work 3 3 [5] = Inr w \<and>
     do_work_st w 3 [] = Inr (w, [\<lparr>pt_a = 3, pt_x = 3, pt_b = 1, pt_y = 3\<rparr>]) \<and>
     do_work_st w 3 [\<lparr>pt_a = 3, pt_x = 3, pt_b = 1, pt_y = 3\<rparr>] =
       Inr (w, [\<lparr>pt_a = 3, pt_x = 3, pt_b = 1, pt_y = 3\<rparr>, \<lparr>pt_a = 3, pt_x = 3, pt_b = 1, pt_y = 3\<rparr>])"
proof -
  obtain t where t: "cz 3 3 5 = Inr t"
    using cz_builds [of 3 3 5] by (auto simp: UINT_MAX_def)
  let ?w = "\<lparr>work_maxb = 3, work_maxp = 3, work_czs = [t]\<rparr>"
  let ?r = "[\<lparr>pt_a = 3, pt_x = 3, pt_b = 1, pt_y = 3\<rparr>]"
  have w: "work 3 3 [5] = Inr ?w"
    by (simp add: work_def to_unsigned_def t)
  have "do_work ?w 3 [] =
      Inr ([] @ search_spec (work_czs ?w)
            [\<lparr>pt_a = 3, pt_x = 3, pt_b = 1, pt_y = 3\<rparr>, \<lparr>pt_a = 3, pt_x = 3, pt_b = 2, pt_y = 3\<rparr>])"
    using w _ _ _ _ axby_points_3_3 by (rule do_work_built) (simp_all add: INT_MAX_def)
  then have "do_work ?w 3 [] = Inr ?r"
    by (simp add: search_spec_def sieve_3_3_5 [OF t])
  then have first: "do_work_st ?w 3 [] = Inr (?w, ?r)"
    by (simp add: do_work_st_spec)
  note th = successive_searches_identical [OF first]
  have "do_work_st ?w 3 ?r = Inr (?w, ?r @ ?r)"
    using conjunct2 [OF conjunct2 [OF th]] by (rule spec)
  with w first show ?thesis
    by (intro exI conjI) simp_all
qed

text \<open>
  Claim C6. For a table built with a modulus \<open>m\<close> of \<^verbatim>\<open>uint32_t\<close> and a point within the
  bounds of the table, the value handed to \<^verbatim>\<open>exists\<close> is \<open>(a ^ x + b ^ y) mod m\<close> exactly:
  the sum of the two residues is formed in 64 bits and does not wrap.
\<close>

theorem sieve_arg_is_exact:
  assumes "cz maxb maxp m = Inr t" "m < 4294967296"
    and "1 \<le> a" "a \<le> int maxb" "3 \<le> x" "x \<le> int maxp"
    and "1 \<le> b" "b \<le> int maxb" "3 \<le> y" "y \<le> int maxp"
  shows "sieve_arg t \<lparr>pt_a = a, pt_x = x, pt_b = b, pt_y = y\<rparr> =
    Inr ((nat a ^ nat x + nat b ^ nat y) mod m)"
  using sieve_arg_built [OF assms(1,2), of "\<lparr>pt_a = a, pt_x = x, pt_b = b, pt_y = y\<rparr>"]
    assms(3-10)
  by (simp add: modpow_def mod_add_eq)

theorem sieve_arg_is_exact_witness:
  "\<exists>t. cz 1625 3 4294967295 = Inr t \<and>
     sieve_arg t \<lparr>pt_a = 1625, pt_x = 3, pt_b = 1625, pt_y = 3\<rparr> = Inr 4287063955"
proof -
  obtain t where t: "cz 1625 3 4294967295 = Inr t"
    using cz_builds [of 1625 3 4294967295] by (auto simp: UINT_MAX_def)
  have "sieve_arg t \<lparr>pt_a = 1625, pt_x = 3, pt_b = 1625, pt_y = 3\<rparr> =
      Inr ((nat 1625 ^ nat 3 + nat 1625 ^ nat 3) mod 4294967295)"
    using t by (rule sieve_arg_is_exact) simp_all
  then have "sieve_arg t \<lparr>pt_a = 1625, pt_x = 3, pt_b = 1625, pt_y = 3\<rparr> = Inr 4287063955"
    by simp
  with t show ?thesis
    by (intro exI conjI)
qed

section \<open>Claims about the C interface\<close>

text \<open>
  Claim C5. When the search returns \<open>results\<close> and the caller's buffer has at least
  \<open>len\<close> elements, \<^verbatim>\<open>work_do_work\<close> returns the number of results in every case; it
  leaves the buffer as it was when that number exceeds \<open>len\<close>, and otherwise writes
  all the results to the front of the buffer.
\<close>

theorem buffer_written_only_when_it_fits:
  assumes "do_work w a [] = Inr results" "len \<le> length pts"
  shows "work_do_work w a pts len =
    Inr (if length results \<le> len then results @ drop (length results) pts else pts,
         length results)"
proof (cases "length results \<le> len")
  case True
  then have "copy_results 0 results pts = Inr (results @ drop (length results) pts)"
    using assms(2) copy_results_spec [of 0 results pts] by simp
  then show ?thesis
    using True by (simp add: work_do_work_def assms(1))
next
  case False
  then show ?thesis
    by (simp add: work_do_work_def assms(1))
qed

theorem buffer_written_only_when_it_fits_witness:
  "\<exists>w. work 3 3 [] = Inr w \<and>
     work_do_work w 3 [\<lparr>pt_a = 0, pt_x = 0, pt_b = 0, pt_y = 0\<rparr>] 1 =
       Inr ([\<lparr>pt_a = 0, pt_x = 0, pt_b = 0, pt_y = 0\<rparr>], 2) \<and>
     work_do_work w 3 [\<lparr>pt_a = 0, pt_x = 0, pt_b = 0, pt_y = 0\<rparr>, \<lparr>pt_a = 0, pt_x = 0, pt_b = 0, pt_y = 0\<rparr>,
                       \<lparr>pt_a = 0, pt_x = 0, pt_b = 0, pt_y = 0\<rparr>] 3 =
       Inr ([\<lparr>pt_a = 3, pt_x = 3, pt_b = 1, pt_y = 3\<rparr>, \<lparr>pt_a = 3, pt_x = 3, pt_b = 2, pt_y = 3\<rparr>,
             \<lparr>pt_a = 0, pt_x = 0, pt_b = 0, pt_y = 0\<rparr>], 2)"
proof -
  let ?w = "\<lparr>work_maxb = 3, work_maxp = 3, work_czs = []\<rparr>"
  let ?r = "[\<lparr>pt_a = 3, pt_x = 3, pt_b = 1, pt_y = 3\<rparr>, \<lparr>pt_a = 3, pt_x = 3, pt_b = 2, pt_y = 3\<rparr>]"
  have w: "work 3 3 [] = Inr ?w"
    by (simp add: work_def)
  have first: "do_work ?w 3 [] = Inr ?r"
    by (simp add: do_work_no_tables axby_points_3_3)
  note th = buffer_written_only_when_it_fits [OF first]
  have "work_do_work ?w 3 [\<lparr>pt_a = 0, pt_x = 0, pt_b = 0, pt_y = 0\<rparr>] 1 =
       Inr ([\<lparr>pt_a = 0, pt_x = 0, pt_b = 0, pt_y = 0\<rparr>], 2)"
    using th [of 1 "[\<lparr>pt_a = 0, pt_x = 0, pt_b = 0, pt_y = 0\<rparr>]"] by simp
  moreover have "work_do_work ?w 3 [\<lparr>pt_a = 0, pt_x = 0, pt_b = 0, pt_y = 0\<rparr>, \<lparr>pt_a = 0, pt_x = 0, pt_b = 0, pt_y = 0\<rparr>,
                       \<lparr>pt_a = 0, pt_x = 0, pt_b = 0, pt_y = 0\<rparr>] 3 =
       Inr ([\<lparr>pt_a = 3, pt_x = 3, pt_b = 1, pt_y = 3\<rparr>, \<lparr>pt_a = 3, pt_x = 3, pt_b = 2, pt_y = 3\<rparr>,
             \<lparr>pt_a = 0, pt_x = 0, pt_b = 0, pt_y = 0\<rparr>], 2)"
    using th [of 3 "[\<lparr>pt_a = 0, pt_x = 0, pt_b = 0, pt_y = 0\<rparr>, \<lparr>pt_a = 0, pt_x = 0, pt_b = 0, pt_y = 0\<rparr>,
                       \<lparr>pt_a = 0, pt_x = 0, pt_b = 0, pt_y = 0\<rparr>]"] by simp
  ultimately show ?thesis
    using w by (intro exI conjI)
qed

end
